theory Spec2Isabelle
  imports Complex_Main "HOL-Library.Word" "HOL-Library.Sublist"
begin

unbundle bit_operations_syntax

section \<open>Exceptions and database errors\<close>

text \<open>
  A raised Python exception, with its message. Every exception of this model is an
  instance of \<open>Exception\<close>, the class that the \<open>except\<close> clause of the loop catches.
\<close>

datatype py_exception = Exception string

text \<open>The errors with which the database rejects an INSERT.\<close>

datatype db_error = NotNullViolation | UniqueViolation | ForeignKeyViolation

text \<open>The value of an autoincrement primary key: above every key in the table.\<close>

definition next_id :: "int list \<Rightarrow> int" where
  "next_id ids = fold max ids 0 + 1"

section \<open>The pipeline entry point (src/protein\_metamorphisms\_is/main.py)\<close>

text \<open>The eleven statements of \<open>main\<close> after the configuration is read, one constructor each.\<close>

datatype stage_call =
    AccessionManager_fetch_accessions_from_api
  | AccessionManager_load_accessions_from_csv
  | UniProtExtractor_start
  | PDBExtractor_start
  | SequenceEmbeddingManager_start
  | Structure3DiManager_start
  | SequenceClustering_start
  | StructuralSubClustering_start
  | StructuralAlignmentManager_start
  | SequenceGOAnnotation_start
  | GoMultifunctionalityMetrics_start

definition main_statements :: "stage_call list" where
  "main_statements =
     [AccessionManager_fetch_accessions_from_api,
      AccessionManager_load_accessions_from_csv,
      UniProtExtractor_start,
      PDBExtractor_start,
      SequenceEmbeddingManager_start,
      Structure3DiManager_start,
      SequenceClustering_start,
      StructuralSubClustering_start,
      StructuralAlignmentManager_start,
      SequenceGOAnnotation_start,
      GoMultifunctionalityMetrics_start]"

text \<open>
  What leaves a statement that does not return. \<open>main\<close> has no handler, so it leaves
  \<open>main\<close> and the script as well: \<open>SystemExit\<close> with its code (\<open>sys.exit()\<close> carries
  \<open>None\<close>, \<open>sys.exit(n)\<close> the integer \<open>n\<close>, and any other object stands for a message),
  \<open>KeyboardInterrupt\<close>, or any other exception.
\<close>

datatype exit_code = NoCode | IntCode int | ObjectCode string

datatype py_raise = Raise py_exception | SystemExit exit_code | KeyboardInterrupt

text \<open>
  The collaborators of \<open>main\<close>: the configuration reader and the stage classes, whose code
  acts on the shared store \<open>'w\<close>. A statement \<open>Cls(conf).method()\<close> either returns, leaving
  a new store, or raises.
\<close>

record ('conf, 'w) pipeline_env =
  read_yaml_config :: "string option \<Rightarrow> py_raise + 'conf"
  run_stage :: "stage_call \<Rightarrow> 'conf \<Rightarrow> 'w \<Rightarrow> py_raise + 'w"

text \<open>
  Statements in sequence: the first one that raises ends the sequence. The result carries
  the statements that were started, in order.
\<close>

fun run_statements ::
  "(stage_call \<Rightarrow> 'w \<Rightarrow> py_raise + 'w) \<Rightarrow> stage_call list \<Rightarrow> 'w
     \<Rightarrow> stage_call list \<times> (py_raise + 'w)" where
  "run_statements run [] w = ([], Inr w)"
| "run_statements run (s # ss) w =
     (case run s w of
        Inl e \<Rightarrow> ([s], Inl e)
      | Inr w' \<Rightarrow> (case run_statements run ss w' of (started, r) \<Rightarrow> (s # started, r)))"

definition main ::
  "('conf, 'w) pipeline_env \<Rightarrow> string option \<Rightarrow> 'w \<Rightarrow> stage_call list \<times> (py_raise + 'w)" where
  "main env config_path w =
     (case read_yaml_config env config_path of
        Inl e \<Rightarrow> ([], Inl e)
      | Inr conf \<Rightarrow> run_statements (\<lambda>s. run_stage env s conf) main_statements w)"

text \<open>
  The exit status of the interpreter running the script, as the shell reports it. When
  \<open>main\<close> returns it is 0. An exception that leaves \<open>main\<close> uncaught is printed and the
  status is 1. For \<open>SystemExit\<close> the status comes from the code: 0 for \<open>None\<close>; for an
  integer that fits a C \<open>long\<close> (64 bits) its low eight bits, and 255 for one that does
  not; 1 for any other object, which is printed. After \<open>KeyboardInterrupt\<close> the interpreter
  ends itself with the interrupt signal, which the shell reports as 130.
\<close>

definition system_exit_status :: "exit_code \<Rightarrow> int" where
  "system_exit_status c =
     (case c of
        NoCode \<Rightarrow> 0
      | IntCode n \<Rightarrow> if - (2 ^ 63) \<le> n \<and> n < 2 ^ 63 then n mod 256 else 255
      | ObjectCode s \<Rightarrow> 1)"

definition exit_status :: "py_raise + 'w \<Rightarrow> int" where
  "exit_status r =
     (case r of
        Inr w \<Rightarrow> 0
      | Inl (Raise e) \<Rightarrow> 1
      | Inl (SystemExit c) \<Rightarrow> system_exit_status c
      | Inl KeyboardInterrupt \<Rightarrow> 130)"

text \<open>The stage names of the specification, and the stage that each statement belongs to.\<close>

datatype stage = Accession | Extraction | Embedding | Clustering | SubClustering
  | Alignment | Annotation | Metrics

definition declared_order :: "stage list" where
  "declared_order =
     [Accession, Extraction, Embedding, Clustering, SubClustering, Alignment, Annotation, Metrics]"

fun stage_of :: "stage_call \<Rightarrow> stage" where
  "stage_of AccessionManager_fetch_accessions_from_api = Accession"
| "stage_of AccessionManager_load_accessions_from_csv = Accession"
| "stage_of UniProtExtractor_start = Extraction"
| "stage_of PDBExtractor_start = Extraction"
| "stage_of SequenceEmbeddingManager_start = Embedding"
| "stage_of Structure3DiManager_start = Embedding"
| "stage_of SequenceClustering_start = Clustering"
| "stage_of StructuralSubClustering_start = SubClustering"
| "stage_of StructuralAlignmentManager_start = Alignment"
| "stage_of SequenceGOAnnotation_start = Annotation"
| "stage_of GoMultifunctionalityMetrics_start = Metrics"

text \<open>
  Concrete runs: the store is the log of the statements that returned; the statement in
  \<open>failing\<close>, if any, raises what stands next to it.
\<close>

definition demo_pipeline_env ::
  "(stage_call \<times> py_raise) option \<Rightarrow> (string, stage_call list) pipeline_env" where
  "demo_pipeline_env failing =
     \<lparr>read_yaml_config =
        (\<lambda>p. case p of None \<Rightarrow> Inl (Raise (Exception ''no path'')) | Some f \<Rightarrow> Inr f),
      run_stage =
        (\<lambda>s conf w. case failing of
                      None \<Rightarrow> Inr (w @ [s])
                    | Some (f, x) \<Rightarrow> if s = f then Inl x else Inr (w @ [s]))\<rparr>"

section \<open>Sequence embedding with ESM (operation/embedding/proccess/sequence/esm.py)\<close>











section \<open>The example FASTA entry point (src/examples/example_fasta/main.py)\<close>

text \<open>
  Python's slice \<open>xs[:k]\<close>: a negative bound counts from the end of the list and both
  cases are clamped to the list, so the slice never raises.
\<close>

definition slice_upto :: "int \<Rightarrow> 'a list \<Rightarrow> 'a list" where
  "slice_upto k xs =
     (let n = int (length xs);
          j = (if k < 0 then max 0 (n + k) else min k n)
      in take (nat j) xs)"

text \<open>
  The two columns of \<open>PDBReference\<close> that the entry point reads. \<open>resolution\<close> is a
  nullable Float column; a finite float is a rational number and \<open><\<close> compares it exactly.
\<close>

record pdb_reference =
  pdb_id :: string
  resolution :: "rat option"

text \<open>\<open>config.get("resolution_threshold", 2.5)\<close>.\<close>

definition resolution_threshold :: "rat option \<Rightarrow> rat" where
  "resolution_threshold c = (case c of None \<Rightarrow> 5 / 2 | Some t \<Rightarrow> t)"

text \<open>
  \<open>session.query(PDBReference).filter(PDBReference.resolution < threshold).all()\<close>
  followed by the comprehension over \<open>pdb_id\<close>: a row whose resolution is NULL does not
  satisfy the SQL comparison.
\<close>

definition filtered_pdb_ids :: "rat option \<Rightarrow> pdb_reference list \<Rightarrow> string list" where
  "filtered_pdb_ids c refs =
     map pdb_id
       (filter (\<lambda>r. case resolution r of None \<Rightarrow> False
                                        | Some x \<Rightarrow> x < resolution_threshold c) refs)"

text \<open>
  The arguments of the two calls that \<open>main\<close> makes on the \<open>FastaHandler\<close>, from the
  rows of \<open>pdb_references\<close> and the configured threshold. The statements before the query
  (reading the configuration, opening the session) and the other configuration keys that
  the calls read are taken to succeed.
\<close>

record fasta_calls =
  download_fastas_arg :: "string list"
  merge_fastas_arg :: "string list"

definition example_fasta_main :: "rat option \<Rightarrow> pdb_reference list \<Rightarrow> fasta_calls" where
  "example_fasta_main c refs =
     (let pdb_ids = filtered_pdb_ids c refs
      in \<lparr>download_fastas_arg = slice_upto (- 500) pdb_ids,
          merge_fastas_arg = pdb_ids\<rparr>)"

section \<open>Sequences and their hash (sql/model.py)\<close>

text \<open>
  The constructor of \<open>Sequence\<close> sets \<open>sequence_hash\<close> to the SQL expression
  \<open>md5(sequence)\<close>, which the database evaluates on INSERT. That function is MD5
  (RFC 1321) over the bytes of the text, written as 32 lower-case hexadecimal digits. MD5
  works on 32-bit words; the tables below are its sine constants and its rotation amounts.
\<close>

type_synonym u32 = "32 word"

definition md5_K :: "u32 list" where
  "md5_K =
     [0xd76aa478, 0xe8c7b756, 0x242070db, 0xc1bdceee,
      0xf57c0faf, 0x4787c62a, 0xa8304613, 0xfd469501,
      0x698098d8, 0x8b44f7af, 0xffff5bb1, 0x895cd7be,
      0x6b901122, 0xfd987193, 0xa679438e, 0x49b40821,
      0xf61e2562, 0xc040b340, 0x265e5a51, 0xe9b6c7aa,
      0xd62f105d, 0x02441453, 0xd8a1e681, 0xe7d3fbc8,
      0x21e1cde6, 0xc33707d6, 0xf4d50d87, 0x455a14ed,
      0xa9e3e905, 0xfcefa3f8, 0x676f02d9, 0x8d2a4c8a,
      0xfffa3942, 0x8771f681, 0x6d9d6122, 0xfde5380c,
      0xa4beea44, 0x4bdecfa9, 0xf6bb4b60, 0xbebfbc70,
      0x289b7ec6, 0xeaa127fa, 0xd4ef3085, 0x04881d05,
      0xd9d4d039, 0xe6db99e5, 0x1fa27cf8, 0xc4ac5665,
      0xf4292244, 0x432aff97, 0xab9423a7, 0xfc93a039,
      0x655b59c3, 0x8f0ccc92, 0xffeff47d, 0x85845dd1,
      0x6fa87e4f, 0xfe2ce6e0, 0xa3014314, 0x4e0811a1,
      0xf7537e82, 0xbd3af235, 0x2ad7d2bb, 0xeb86d391]"

definition md5_S :: "nat list" where
  "md5_S =
     [7, 12, 17, 22, 7, 12, 17, 22, 7, 12, 17, 22, 7, 12, 17, 22,
      5, 9, 14, 20, 5, 9, 14, 20, 5, 9, 14, 20, 5, 9, 14, 20,
      4, 11, 16, 23, 4, 11, 16, 23, 4, 11, 16, 23, 4, 11, 16, 23,
      6, 10, 15, 21, 6, 10, 15, 21, 6, 10, 15, 21, 6, 10, 15, 21]"

definition rotl32 :: "nat \<Rightarrow> u32 \<Rightarrow> u32" where
  "rotl32 n x = push_bit n x OR drop_bit (32 - n) x"

definition md5_F :: "nat \<Rightarrow> u32 \<Rightarrow> u32 \<Rightarrow> u32 \<Rightarrow> u32" where
  "md5_F i b c d =
     (if i < 16 then (b AND c) OR (NOT b AND d)
      else if i < 32 then (d AND b) OR (NOT d AND c)
      else if i < 48 then b XOR c XOR d
      else c XOR (b OR NOT d))"

definition md5_g :: "nat \<Rightarrow> nat" where
  "md5_g i =
     (if i < 16 then i
      else if i < 32 then (5 * i + 1) mod 16
      else if i < 48 then (3 * i + 5) mod 16
      else (7 * i) mod 16)"

text \<open>One of the 64 steps on the state \<open>(a, b, c, d)\<close>, with the 16 words \<open>M\<close> of the block.\<close>

definition md5_round :: "u32 list \<Rightarrow> u32 \<times> u32 \<times> u32 \<times> u32 \<Rightarrow> nat \<Rightarrow> u32 \<times> u32 \<times> u32 \<times> u32" where
  "md5_round M s i =
     (case s of (a, b, c, d) \<Rightarrow>
        (d, b + rotl32 (md5_S ! i) (md5_F i b c d + a + md5_K ! i + M ! md5_g i), b, c))"

definition md5_block :: "u32 \<times> u32 \<times> u32 \<times> u32 \<Rightarrow> u32 list \<Rightarrow> u32 \<times> u32 \<times> u32 \<times> u32" where
  "md5_block h M =
     (case h of (a0, b0, c0, d0) \<Rightarrow>
        (case foldl (md5_round M) h [0..<64] of (a, b, c, d) \<Rightarrow>
           (a0 + a, b0 + b, c0 + c, d0 + d)))"

text \<open>Bytes are numbers below 256; words and the bit length are little-endian.\<close>

definition le_bytes4 :: "nat \<Rightarrow> nat list" where
  "le_bytes4 n = [n mod 256, n div 256 mod 256, n div 65536 mod 256, n div 16777216 mod 256]"

definition le_bytes8 :: "nat \<Rightarrow> nat list" where
  "le_bytes8 n = le_bytes4 (n mod 4294967296) @ le_bytes4 (n div 4294967296 mod 4294967296)"

definition md5_pad :: "nat list \<Rightarrow> nat list" where
  "md5_pad bs =
     bs @ [128] @ replicate ((119 - length bs mod 64) mod 64) 0 @ le_bytes8 (8 * length bs)"

fun le_words :: "nat list \<Rightarrow> u32 list" where
  "le_words (b0 # b1 # b2 # b3 # bs) =
     word_of_nat (b0 + 256 * b1 + 65536 * b2 + 16777216 * b3) # le_words bs"
| "le_words bs = []"

fun md5_blocks :: "u32 \<times> u32 \<times> u32 \<times> u32 \<Rightarrow> u32 list \<Rightarrow> u32 \<times> u32 \<times> u32 \<times> u32" where
  "md5_blocks h [] = h"
| "md5_blocks h (w # ws) = md5_blocks (md5_block h (take 16 (w # ws))) (drop 16 (w # ws))"

definition md5_init :: "u32 \<times> u32 \<times> u32 \<times> u32" where
  "md5_init = (0x67452301, 0xefcdab89, 0x98badcfe, 0x10325476)"

definition hex_digit :: "nat \<Rightarrow> char" where
  "hex_digit n = ''0123456789abcdef'' ! n"

definition hex_byte :: "nat \<Rightarrow> string" where
  "hex_byte b = [hex_digit (b div 16), hex_digit (b mod 16)]"

definition md5_hex :: "u32 \<times> u32 \<times> u32 \<times> u32 \<Rightarrow> string" where
  "md5_hex h =
     (case h of (a, b, c, d) \<Rightarrow>
        concat (map hex_byte (concat (map (\<lambda>w. le_bytes4 (unat w)) [a, b, c, d]))))"

definition md5 :: "string \<Rightarrow> string" where
  "md5 s = md5_hex (md5_blocks md5_init (le_words (md5_pad (map of_char s))))"

text \<open>
  The keyword arguments of the \<open>Sequence\<close> constructor, the object it leaves (the hash as
  the value that the expression \<open>md5(sequence)\<close> takes in the database: NULL for a NULL
  sequence), and a stored row of \<open>sequences\<close>.
\<close>

record sequence_kwargs =
  kw_sequence :: "string option"
  kw_sequence_hash :: "string option"

record sequence_object =
  obj_sequence :: "string option"
  obj_sequence_hash :: "string option"

record sequence_row =
  seq_id :: int
  sequence :: string
  sequence_hash :: "string option"

text \<open>
  \<open>Sequence.__init__\<close>: the base constructor stores the keyword arguments, then
  \<open>sequence_hash\<close> is overwritten with the hash of \<open>sequence\<close>.
\<close>

definition Sequence_init :: "sequence_kwargs \<Rightarrow> sequence_object" where
  "Sequence_init kw =
     \<lparr>obj_sequence = kw_sequence kw, obj_sequence_hash = map_option md5 (kw_sequence kw)\<rparr>"

text \<open>
  INSERT into \<open>sequences\<close>: \<open>sequence\<close> is NOT NULL and \<open>sequence_hash\<close> has a unique
  index (which, as in SQL, does not compare NULLs).
\<close>

definition insert_sequence :: "sequence_row list \<Rightarrow> sequence_object \<Rightarrow> db_error + sequence_row list" where
  "insert_sequence rows obj =
     (case obj_sequence obj of
        None \<Rightarrow> Inl NotNullViolation
      | Some s \<Rightarrow>
          if obj_sequence_hash obj \<noteq> None \<and> obj_sequence_hash obj \<in> set (map sequence_hash rows)
          then Inl UniqueViolation
          else Inr (rows @ [\<lparr>seq_id = next_id (map seq_id rows), sequence = s,
                             sequence_hash = obj_sequence_hash obj\<rparr>]))"

text \<open>
  Constructing and inserting a list of sequences one by one; a rejected INSERT is rolled
  back and leaves the table as it was.
\<close>

fun add_sequences :: "sequence_row list \<Rightarrow> sequence_kwargs list \<Rightarrow> sequence_row list" where
  "add_sequences rows [] = rows"
| "add_sequences rows (kw # kws) =
     (case insert_sequence rows (Sequence_init kw) of
        Inl e \<Rightarrow> add_sequences rows kws
      | Inr rows' \<Rightarrow> add_sequences rows' kws)"

text \<open>Two different strings of 72 letters and digits (a published MD5 collision).\<close>

definition collision_a :: string where
  "collision_a = ''TEXTCOLLBYfGiJUETHQ4hAcKSMd5zYpgqf1YRDhkmxHkhPWptrkoyz28wnI9V0aHeAuaKnak''"

definition collision_b :: string where
  "collision_b = ''TEXTCOLLBYfGiJUETHQ4hEcKSMd5zYpgqf1YRDhkmxHkhPWptrkoyz28wnI9V0aHeAuaKnak''"

section \<open>The relational schema of the alignment queue (sql/model.py)\<close>

text \<open>
  Rows of \<open>clusters\<close>, \<open>cluster_entries\<close> and \<open>structural_alignment_types\<close>. A nullable
  column is an \<open>option\<close>, a Float column holds a rational, a DateTime column a point on a
  discrete clock.
\<close>

record cluster =
  cluster_id :: int
  cluster_created_at :: nat

record cluster_entry =
  entry_id :: int
  entry_cluster_id :: "int option"
  entry_sequence_id :: int
  is_representative :: "bool option"
  sequence_length :: "int option"
  identity :: "rat option"
  entry_created_at :: nat

record structural_alignment_type =
  type_id :: int
  type_name :: string
  type_description :: "string option"
  task_name :: "string option"

text \<open>
  A row of \<open>structural_alignment_queue\<close>. \<open>updated_at\<close> is never NULL in a stored row: its
  default fills it on INSERT and \<open>onupdate\<close> on every UPDATE.
\<close>

record structural_alignment_queue =
  queue_id :: int
  cluster_entry_id :: int
  alignment_type_id :: int
  state :: int
  retry_count :: int
  error_message :: "string option"
  created_at :: nat
  updated_at :: nat

text \<open>
  The ten metric columns of \<open>structural_alignment_results\<close>, and a row of that table:
  its key, its nullable \<open>cluster_entry_id\<close> and the metrics.
\<close>

record alignment_metrics =
  ce_rms :: "rat option"
  tm_rms :: "rat option"
  tm_seq_id :: "rat option"
  tm_score_chain_1 :: "rat option"
  tm_score_chain_2 :: "rat option"
  fc_rms :: "rat option"
  fc_identity :: "rat option"
  fc_similarity :: "rat option"
  fc_score :: "rat option"
  fc_align_len :: "rat option"

record structural_alignment_results =
  result_id :: int
  result_cluster_entry_id :: "int option"
  metrics :: alignment_metrics

record database =
  clusters :: "cluster list"
  cluster_entries :: "cluster_entry list"
  structural_alignment_types :: "structural_alignment_type list"
  queue :: "structural_alignment_queue list"
  results :: "structural_alignment_results list"

text \<open>
  The keyword arguments of the \<open>StructuralAlignmentQueue\<close> constructor; an argument left
  out is \<open>None\<close> and takes the column's default, if it has one, on INSERT.
\<close>

record queue_kwargs =
  kw_cluster_entry_id :: "int option"
  kw_alignment_type_id :: "int option"
  kw_state :: "int option"
  kw_retry_count :: "int option"
  kw_error_message :: "string option"

text \<open>
  INSERT of a queue row at time \<open>now\<close>, under the constraints that the table declares:
  \<open>cluster_entry_id\<close> and \<open>alignment_type_id\<close> are NOT NULL; \<open>cluster_entry_id\<close> is a
  foreign key to \<open>clusters.id\<close> and \<open>alignment_type_id\<close> one to
  \<open>structural_alignment_types.id\<close>; \<open>state\<close> and \<open>retry_count\<close> default to 0, both
  timestamps to the time of the INSERT. The table declares no other constraint.
\<close>

definition insert_queue :: "nat \<Rightarrow> database \<Rightarrow> queue_kwargs \<Rightarrow> db_error + database" where
  "insert_queue now db kw =
     (case kw_cluster_entry_id kw of
        None \<Rightarrow> Inl NotNullViolation
      | Some ce \<Rightarrow>
          (case kw_alignment_type_id kw of
             None \<Rightarrow> Inl NotNullViolation
           | Some aty \<Rightarrow>
               if ce \<notin> set (map cluster_id (clusters db)) then Inl ForeignKeyViolation
               else if aty \<notin> set (map type_id (structural_alignment_types db))
               then Inl ForeignKeyViolation
               else Inr (db\<lparr>queue := queue db @
                      [\<lparr>queue_id = next_id (map queue_id (queue db)),
                        cluster_entry_id = ce,
                        alignment_type_id = aty,
                        state = (case kw_state kw of None \<Rightarrow> 0 | Some s \<Rightarrow> s),
                        retry_count = (case kw_retry_count kw of None \<Rightarrow> 0 | Some n \<Rightarrow> n),
                        error_message = kw_error_message kw,
                        created_at = now,
                        updated_at = now\<rparr>]\<rparr>)))"

text \<open>
  INSERT of a result row: \<open>cluster_entry_id\<close> is nullable and a foreign key to
  \<open>clusters.id\<close>.
\<close>

definition insert_results :: "database \<Rightarrow> int option \<Rightarrow> alignment_metrics \<Rightarrow> db_error + database" where
  "insert_results db ce m =
     (if (case ce of None \<Rightarrow> False | Some c \<Rightarrow> c \<notin> set (map cluster_id (clusters db)))
      then Inl ForeignKeyViolation
      else Inr (db\<lparr>results := results db @
             [\<lparr>result_id = next_id (map result_id (results db)),
               result_cluster_entry_id = ce,
               metrics = m\<rparr>]\<rparr>))"

text \<open>A database for examples: one cluster with key 7 whose only entry has key 1.\<close>

definition demo_db :: database where
  "demo_db =
     \<lparr>clusters = [\<lparr>cluster_id = 7, cluster_created_at = 0\<rparr>],
      cluster_entries =
        [\<lparr>entry_id = 1, entry_cluster_id = Some 7, entry_sequence_id = 3,
          is_representative = Some True, sequence_length = Some 120, identity = Some 1,
          entry_created_at = 0\<rparr>],
      structural_alignment_types =
        [\<lparr>type_id = 1, type_name = ''CE-align'', type_description = None,
          task_name = Some ''ce_align''\<rparr>,
         \<lparr>type_id = 2, type_name = ''US-align'', type_description = None,
          task_name = Some ''us_align''\<rparr>],
      queue = [],
      results = []\<rparr>"

definition no_metrics :: alignment_metrics where
  "no_metrics =
     \<lparr>ce_rms = None, tm_rms = None, tm_seq_id = None, tm_score_chain_1 = None,
      tm_score_chain_2 = None, fc_rms = None, fc_identity = None, fc_similarity = None,
      fc_score = None, fc_align_len = None\<rparr>"

section \<open>The task queue operations\<close>

text \<open>
  Modelled from the spec: the integer codes of the task states. The module that drives the
  queue (\<open>StructuralAlignmentManager\<close>) is not among the sources; the operations of this
  section follow section 4.2 of the specification on the tables above.
\<close>

definition Pending :: int where "Pending = 0"
definition Processing :: int where "Processing = 1"
definition Completed :: int where "Completed = 2"
definition Error :: int where "Error = 3"

text \<open>
  Modelled from the spec: an Error row may be retried if its \<open>retry_count\<close> is below the
  configured maximum \<open>mr\<close>, otherwise it is terminal; Completed is terminal. \<open>claim\<close>
  selects a Pending or a retry-eligible Error row.
\<close>

definition retry_eligible :: "int \<Rightarrow> structural_alignment_queue \<Rightarrow> bool" where
  "retry_eligible mr r = (state r = Error \<and> retry_count r < mr)"

definition is_terminal :: "int \<Rightarrow> structural_alignment_queue \<Rightarrow> bool" where
  "is_terminal mr r = (state r = Completed \<or> (state r = Error \<and> \<not> retry_count r < mr))"

definition claimable :: "int \<Rightarrow> structural_alignment_queue \<Rightarrow> bool" where
  "claimable mr r = (state r = Pending \<or> retry_eligible mr r)"

text \<open>An UPDATE of the rows with key \<open>tid\<close>.\<close>

definition update_task ::
  "int \<Rightarrow> (structural_alignment_queue \<Rightarrow> structural_alignment_queue)
     \<Rightarrow> structural_alignment_queue list \<Rightarrow> structural_alignment_queue list" where
  "update_task tid f rows = map (\<lambda>r. if queue_id r = tid then f r else r) rows"

definition get_task :: "int \<Rightarrow> database \<Rightarrow> structural_alignment_queue option" where
  "get_task tid db = find (\<lambda>r. queue_id r = tid) (queue db)"

text \<open>
  Modelled from the spec: the uniqueness constraint on the pair while the row is
  non-terminal (section 4.2). An INSERT of a pair that already has a non-terminal row
  violates it. The constraint belongs to the store that the specification describes; the
  table of \<open>model.py\<close> does not declare it.
\<close>

definition pair_constraint_violated :: "int \<Rightarrow> database \<Rightarrow> int \<Rightarrow> int \<Rightarrow> bool" where
  "pair_constraint_violated mr db ce aty =
     list_ex (\<lambda>r. cluster_entry_id r = ce \<and> alignment_type_id r = aty \<and> \<not> is_terminal mr r)
       (queue db)"

definition constrained_insert_queue ::
  "int \<Rightarrow> nat \<Rightarrow> database \<Rightarrow> queue_kwargs \<Rightarrow> db_error + database" where
  "constrained_insert_queue mr now db kw =
     (case kw_cluster_entry_id kw of
        None \<Rightarrow> insert_queue now db kw
      | Some ce \<Rightarrow>
          (case kw_alignment_type_id kw of
             None \<Rightarrow> insert_queue now db kw
           | Some aty \<Rightarrow>
               if pair_constraint_violated mr db ce aty then Inl UniqueViolation
               else insert_queue now db kw))"

text \<open>
  Modelled from the spec: \<open>enqueue(cluster_entry_id, alignment_type_id)\<close> creates a Pending
  row; enqueuing an already-queued, non-terminal pair is a no-op, checked by the uniqueness
  constraint on the pair: the INSERT that the constraint rejects leaves the queue as it was.
  The new row takes the defaults of the table; any other violation is returned to the
  caller.
\<close>

definition enqueue :: "int \<Rightarrow> nat \<Rightarrow> int \<Rightarrow> int \<Rightarrow> database \<Rightarrow> db_error + database" where
  "enqueue mr now ce aty db =
     (case constrained_insert_queue mr now db
             \<lparr>kw_cluster_entry_id = Some ce, kw_alignment_type_id = Some aty,
              kw_state = None, kw_retry_count = None, kw_error_message = None\<rparr> of
        Inl e \<Rightarrow> if e = UniqueViolation then Inr db else Inl e
      | Inr db' \<Rightarrow> Inr db')"

text \<open>
  Modelled from the spec: \<open>claim(worker_id)\<close> selects one Pending (or retry-eligible
  Error) row, transitions it to Processing and returns it, or returns \<open>None\<close>. The table
  has no column for the worker.
\<close>

definition claim_row :: "nat \<Rightarrow> structural_alignment_queue \<Rightarrow> structural_alignment_queue" where
  "claim_row now r = r\<lparr>state := Processing, updated_at := now\<rparr>"

definition claim :: "int \<Rightarrow> 'w \<Rightarrow> nat \<Rightarrow> database \<Rightarrow> structural_alignment_queue option \<times> database" where
  "claim mr worker_id now db =
     (case find (claimable mr) (queue db) of
        None \<Rightarrow> (None, db)
      | Some t \<Rightarrow>
          (Some (claim_row now t),
           db\<lparr>queue := update_task (queue_id t) (claim_row now) (queue db)\<rparr>))"

text \<open>
  Modelled from the spec: \<open>complete(task_id, result)\<close> writes the
  \<open>StructuralAlignmentResults\<close> row and sets \<open>state\<close> to Completed, in one atomic unit: the
  returned database has both writes, and a failure of the first write leaves the database as
  it was.
\<close>

definition complete_row :: "nat \<Rightarrow> structural_alignment_queue \<Rightarrow> structural_alignment_queue" where
  "complete_row now r = r\<lparr>state := Completed, updated_at := now\<rparr>"

definition complete :: "int \<Rightarrow> alignment_metrics \<Rightarrow> nat \<Rightarrow> database \<Rightarrow> db_error + database" where
  "complete tid result now db =
     (case get_task tid db of
        None \<Rightarrow> Inr db
      | Some t \<Rightarrow>
          (case insert_results db (Some (cluster_entry_id t)) result of
             Inl e \<Rightarrow> Inl e
           | Inr db' \<Rightarrow> Inr (db'\<lparr>queue := update_task tid (complete_row now) (queue db')\<rparr>)))"

text \<open>
  Modelled from the spec: \<open>fail(task_id, error_message)\<close> increments \<open>retry_count\<close>; if
  \<open>retry_count\<close> is then at most \<open>max_retries\<close> it sets the state back to Pending with the
  recorded message, else it sets the state to Error and retains the message.
\<close>

definition fail_row :: "int \<Rightarrow> string \<Rightarrow> nat \<Rightarrow> structural_alignment_queue \<Rightarrow> structural_alignment_queue" where
  "fail_row mr msg now r =
     r\<lparr>retry_count := retry_count r + 1,
       error_message := Some msg,
       state := (if retry_count r + 1 \<le> mr then Pending else Error),
       updated_at := now\<rparr>"

definition fail :: "int \<Rightarrow> int \<Rightarrow> string \<Rightarrow> nat \<Rightarrow> database \<Rightarrow> database" where
  "fail mr tid msg now db = db\<lparr>queue := update_task tid (fail_row mr msg now) (queue db)\<rparr>"

text \<open>
  Modelled from the spec: \<open>recover_stale(timeout)\<close> sweeps the Processing rows whose update
  timestamp is older than \<open>timeout\<close> and transitions them through \<open>fail\<close> with a synthetic
  message.
\<close>

definition recover_stale :: "int \<Rightarrow> nat \<Rightarrow> nat \<Rightarrow> database \<Rightarrow> database" where
  "recover_stale mr timeout now db =
     db\<lparr>queue := map (\<lambda>r. if state r = Processing \<and> updated_at r + timeout < now
                           then fail_row mr ''stale claim'' now r else r) (queue db)\<rparr>"

text \<open>
  Modelled from the spec: the operations that the dispatcher and the orchestrator issue.
  \<open>complete\<close> and \<open>fail\<close> are issued by the worker that holds the task in Processing, so
  they apply to a Processing task only; a transaction that crashes is rolled back and leaves
  the database as it was. An operation that is refused, or whose precondition fails, gives
  \<open>None\<close>.
\<close>

datatype queue_op =
    Enqueue nat int int
  | Claim nat nat
  | Complete int alignment_metrics nat
  | CrashedComplete int alignment_metrics nat
  | Fail int string nat
  | RecoverStale nat nat

definition holds_task :: "int \<Rightarrow> database \<Rightarrow> bool" where
  "holds_task tid db =
     (case get_task tid db of None \<Rightarrow> False | Some t \<Rightarrow> state t = Processing)"

fun apply_op :: "int \<Rightarrow> queue_op \<Rightarrow> database \<Rightarrow> database option" where
  "apply_op mr (Enqueue now ce aty) db =
     (case enqueue mr now ce aty db of Inl e \<Rightarrow> None | Inr db' \<Rightarrow> Some db')"
| "apply_op mr (Claim worker_id now) db = Some (snd (claim mr worker_id now db))"
| "apply_op mr (Complete tid result now) db =
     (if holds_task tid db
      then (case complete tid result now db of Inl e \<Rightarrow> None | Inr db' \<Rightarrow> Some db')
      else None)"
| "apply_op mr (CrashedComplete tid result now) db =
     (if holds_task tid db then Some db else None)"
| "apply_op mr (Fail tid msg now) db =
     (if holds_task tid db then Some (fail mr tid msg now db) else None)"
| "apply_op mr (RecoverStale timeout now) db = Some (recover_stale mr timeout now db)"

fun run_ops :: "int \<Rightarrow> queue_op list \<Rightarrow> database \<Rightarrow> database option" where
  "run_ops mr [] db = Some db"
| "run_ops mr (op # ops) db =
     (case apply_op mr op db of None \<Rightarrow> None | Some db' \<Rightarrow> run_ops mr ops db')"

text \<open>A database before the first task is enqueued.\<close>

definition fresh :: "database \<Rightarrow> bool" where
  "fresh db = (queue db = [] \<and> results db = [])"





text \<open>
  The same transitions with the change of \<open>retry_count\<close> written out, as the operations
  above make them: a retried failure moves the row from Processing to Pending with the
  count incremented.
\<close>

definition op_transition ::
  "int \<Rightarrow> structural_alignment_queue \<Rightarrow> structural_alignment_queue \<Rightarrow> bool" where
  "op_transition mr r r' =
     ((state r = Pending \<and> state r' = Processing \<and> retry_count r' = retry_count r)
      \<or> (state r = Processing \<and> state r' = Completed \<and> retry_count r' = retry_count r)
      \<or> (state r = Processing \<and> state r' = Pending
          \<and> retry_count r' = retry_count r + 1 \<and> retry_count r' \<le> mr)
      \<or> (state r = Processing \<and> state r' = Error
          \<and> retry_count r' = retry_count r + 1 \<and> mr < retry_count r'))"

text \<open>
  What every database reached from a fresh one satisfies: the keys of the queue are
  distinct; every row is in one of the four states, an Error row has used up its retries
  and every row refers to a cluster; a pair has at most one row that is not terminal; and
  every cluster has as many result rows as Completed tasks.
\<close>

definition inv_ids :: "database \<Rightarrow> bool" where
  "inv_ids db = distinct (map queue_id (queue db))"

definition row_ok :: "int \<Rightarrow> database \<Rightarrow> structural_alignment_queue \<Rightarrow> bool" where
  "row_ok mr db r =
     ((state r = Pending \<or> state r = Processing \<or> state r = Completed \<or> state r = Error)
      \<and> (state r = Error \<longrightarrow> mr < retry_count r)
      \<and> cluster_entry_id r \<in> set (map cluster_id (clusters db)))"

definition inv_rows :: "int \<Rightarrow> database \<Rightarrow> bool" where
  "inv_rows mr db = (\<forall>r \<in> set (queue db). row_ok mr db r)"

definition open_rows ::
  "int \<Rightarrow> int \<Rightarrow> int \<Rightarrow> structural_alignment_queue list \<Rightarrow> structural_alignment_queue list" where
  "open_rows mr ce aty rows =
     filter (\<lambda>r. cluster_entry_id r = ce \<and> alignment_type_id r = aty \<and> \<not> is_terminal mr r) rows"

definition inv_unique :: "int \<Rightarrow> database \<Rightarrow> bool" where
  "inv_unique mr db = (\<forall>ce aty. length (open_rows mr ce aty (queue db)) \<le> 1)"

definition results_for :: "int \<Rightarrow> database \<Rightarrow> structural_alignment_results list" where
  "results_for c db = filter (\<lambda>x. result_cluster_entry_id x = Some c) (results db)"

definition completed_for :: "int \<Rightarrow> database \<Rightarrow> structural_alignment_queue list" where
  "completed_for c db = filter (\<lambda>r. state r = Completed \<and> cluster_entry_id r = c) (queue db)"

definition inv_results :: "database \<Rightarrow> bool" where
  "inv_results db = (\<forall>c. length (results_for c db) = length (completed_for c db))"

definition queue_inv :: "int \<Rightarrow> database \<Rightarrow> bool" where
  "queue_inv mr db = (inv_ids db \<and> inv_rows mr db \<and> inv_unique mr db \<and> inv_results db)"

text \<open>
  One operation seen from one row: the row is untouched or makes one of the transitions of
  the operations, keeping its key and its pair; a Completed or Error row is untouched.
\<close>

definition row_step ::
  "int \<Rightarrow> structural_alignment_queue \<Rightarrow> structural_alignment_queue \<Rightarrow> bool" where
  "row_step mr r r' =
     ((r' = r
       \<or> (op_transition mr r r' \<and> queue_id r' = queue_id r
           \<and> cluster_entry_id r' = cluster_entry_id r
           \<and> alignment_type_id r' = alignment_type_id r))
      \<and> (state r = Completed \<or> state r = Error \<longrightarrow> r' = r))"

definition starts_pending :: "structural_alignment_queue \<Rightarrow> bool" where
  "starts_pending r = (state r = Pending \<and> retry_count r = 0 \<and> error_message r = None)"

text \<open>Rows and constructor arguments for examples, for the pair of cluster 7 and alignment type 1.\<close>

definition demo_task ::
  "int \<Rightarrow> int \<Rightarrow> int \<Rightarrow> string option \<Rightarrow> nat \<Rightarrow> nat \<Rightarrow> structural_alignment_queue" where
  "demo_task qid st rc msg created updated =
     \<lparr>queue_id = qid, cluster_entry_id = 7, alignment_type_id = 1, state = st,
      retry_count = rc, error_message = msg, created_at = created, updated_at = updated\<rparr>"

definition demo_kwargs :: "int \<Rightarrow> int \<Rightarrow> queue_kwargs" where
  "demo_kwargs ce aty =
     \<lparr>kw_cluster_entry_id = Some ce, kw_alignment_type_id = Some aty,
      kw_state = None, kw_retry_count = None, kw_error_message = None\<rparr>"

section \<open>The clustering engine\<close>

text \<open>
  Modelled from the spec: the clustering stage (\<open>SequenceClustering\<close>) is not among the
  sources. Section 4.1 of the specification: \<open>cluster(sequences, method_config)\<close> partitions
  the sequences into clusters and picks exactly one representative entry per cluster using
  the method's own scoring, breaking ties by the lowest sequence identifier; it fails with
  \<open>InputError\<close> on zero sequences and with \<open>ExternalToolError\<close> if the similarity
  computation fails, and writes all entries of a run or none. The similarity computation is
  an external tool: it labels every sequence with the group it belongs to.
\<close>

datatype clustering_error = InputError | ExternalToolError string

record method_config =
  similarity :: "sequence_row list \<Rightarrow> string + (sequence_row \<Rightarrow> nat)"
  score :: "sequence_row \<Rightarrow> rat"
  identity_to :: "sequence_row \<Rightarrow> sequence_row \<Rightarrow> rat"

text \<open>
  Modelled from the spec: \<open>x\<close> is a better representative than \<open>y\<close> if it scores higher,
  or scores the same and has the lower identifier.
\<close>

definition better :: "method_config \<Rightarrow> sequence_row \<Rightarrow> sequence_row \<Rightarrow> bool" where
  "better cfg x y = (score cfg y < score cfg x \<or> (score cfg x = score cfg y \<and> seq_id x < seq_id y))"

fun pick_representative :: "method_config \<Rightarrow> sequence_row \<Rightarrow> sequence_row list \<Rightarrow> sequence_row" where
  "pick_representative cfg best [] = best"
| "pick_representative cfg best (x # xs) =
     pick_representative cfg (if better cfg x best then x else best) xs"

text \<open>Modelled from the spec: the groups of a labelling, in the order of first appearance.\<close>

definition groups :: "(sequence_row \<Rightarrow> nat) \<Rightarrow> sequence_row list \<Rightarrow> sequence_row list list" where
  "groups label sequences =
     map (\<lambda>l. filter (\<lambda>s. label s = l) sequences) (remdups (map label sequences))"

text \<open>
  Modelled from the spec: the entries of one cluster, one per member, with the length of
  the member and its identity to the representative; the key is assigned on INSERT.
\<close>

definition make_entries :: "method_config \<Rightarrow> nat \<Rightarrow> int \<Rightarrow> sequence_row list \<Rightarrow> cluster_entry list" where
  "make_entries cfg now cid members =
     (case members of
        [] \<Rightarrow> []
      | s # ss \<Rightarrow>
          map (\<lambda>x. \<lparr>entry_id = 0,
                     entry_cluster_id = Some cid,
                     entry_sequence_id = seq_id x,
                     is_representative = Some (seq_id x = seq_id (pick_representative cfg s ss)),
                     sequence_length = Some (int (length (sequence x))),
                     identity = Some (identity_to cfg (pick_representative cfg s ss) x),
                     entry_created_at = now\<rparr>) members)"

text \<open>
  Modelled from the spec: one new cluster per group, with keys counted up from \<open>cid\<close>, and
  one clustering run, which adds the clusters and their entries to the database or fails
  without a change.
\<close>

fun make_clusters ::
  "method_config \<Rightarrow> nat \<Rightarrow> int \<Rightarrow> sequence_row list list \<Rightarrow> (cluster \<times> cluster_entry list) list" where
  "make_clusters cfg now cid [] = []"
| "make_clusters cfg now cid (members # rest) =
     (\<lparr>cluster_id = cid, cluster_created_at = now\<rparr>, make_entries cfg now cid members)
       # make_clusters cfg now (cid + 1) rest"

text \<open>The keys of the rows of one INSERT, counted up from the next free key.\<close>

fun number :: "int \<Rightarrow> cluster_entry list \<Rightarrow> cluster_entry list" where
  "number k [] = []"
| "number k (e # es) = e\<lparr>entry_id := k\<rparr> # number (k + 1) es"

definition cluster ::
  "method_config \<Rightarrow> nat \<Rightarrow> database \<Rightarrow> sequence_row list \<Rightarrow> clustering_error + database" where
  "cluster cfg now db sequences =
     (if sequences = [] then Inl InputError
      else (case similarity cfg sequences of
              Inl msg \<Rightarrow> Inl (ExternalToolError msg)
            | Inr label \<Rightarrow>
                (let made = make_clusters cfg now (next_id (map cluster_id (clusters db)))
                              (groups label sequences)
                 in Inr (db\<lparr>clusters := clusters db @ map fst made,
                            cluster_entries := cluster_entries db @
                              number (next_id (map entry_id (cluster_entries db)))
                                (concat (map snd made))\<rparr>))))"

text \<open>The representative entries of a cluster, and the invariant of the engine.\<close>

definition representatives :: "database \<Rightarrow> cluster \<Rightarrow> cluster_entry list" where
  "representatives db c =
     filter (\<lambda>e. entry_cluster_id e = Some (cluster_id c) \<and> is_representative e = Some True)
       (cluster_entries db)"

definition one_representative :: "database \<Rightarrow> bool" where
  "one_representative db =
     ((\<forall>c \<in> set (clusters db). length (representatives db c) = 1)
      \<and> (\<forall>e \<in> set (cluster_entries db).
            \<exists>c \<in> set (clusters db). entry_cluster_id e = Some (cluster_id c)))"

text \<open>
  Five sequences for examples; the external tool puts them into one group and scores the
  third highest.
\<close>

definition demo_sequences :: "sequence_row list" where
  "demo_sequences =
     map (\<lambda>(i, s). \<lparr>seq_id = i, sequence = s, sequence_hash = Some (md5 s)\<rparr>)
       [(1, ''MKV''), (2, ''MKVL''), (3, ''MKVLA''), (4, ''MKVLAA''), (5, ''MKVLG'')]"

definition demo_method :: method_config where
  "demo_method =
     \<lparr>similarity = (\<lambda>sequences. Inr (\<lambda>s. 0)),
      score = (\<lambda>s. if seq_id s = 3 then 9 / 10 else 1 / 2),
      identity_to = (\<lambda>r s. if seq_id r = seq_id s then 1 else 4 / 5)\<rparr>"

definition empty_db :: database where
  "empty_db =
     \<lparr>clusters = [], cluster_entries = [], structural_alignment_types = [], queue = [],
      results = []\<rparr>"

section \<open>Primary keys\<close>

lemma fold_max_ge: "a \<le> fold max ids (a::int)"
proof (induction ids arbitrary: a)
  case Nil
  then show ?case by simp
next
  case (Cons y ys)
  have "a \<le> max y a" by simp
  also have "max y a \<le> fold max ys (max y a)" by (rule Cons.IH)
  finally show ?case by simp
qed

lemma fold_max_mem: "x \<in> set ids \<Longrightarrow> x \<le> fold max ids (a::int)"
proof (induction ids arbitrary: a)
  case Nil
  then show ?case by simp
next
  case (Cons y ys)
  show ?case
  proof (cases "x = y")
    case True
    have "max y a \<le> fold max ys (max y a)" by (rule fold_max_ge)
    with True show ?thesis by simp
  next
    case False
    with Cons show ?thesis by simp
  qed
qed

lemma next_id_fresh: "next_id ids \<notin> set ids"
  using fold_max_mem [of "next_id ids" ids 0] by (auto simp: next_id_def)

lemma next_id_above: "x \<in> set ids \<Longrightarrow> x < next_id ids"
  using fold_max_mem [of x ids 0] by (simp add: next_id_def)

section \<open>Evaluating MD5\<close>

lemma replicate_numeral:
  "replicate (numeral k) x = x # replicate (pred_numeral k) x"
  by (simp add: numeral_eq_Suc)

lemma upt_0_numeral:
  "[0..<numeral n] = 0 # [Suc 0..<numeral n]"
  by (simp add: upt_rec)

lemma upt_Suc_0_numeral:
  "[Suc 0..<numeral n] = (if Suc 0 < numeral n then Suc 0 # [2..<numeral n] else [])"
  by (simp add: upt_rec [of "Suc 0"] numeral_2_eq_2)

lemmas md5_round_eval =
  md5_block_def upt_0_numeral upt_Suc_0_numeral md5_round_def md5_F_def md5_g_def md5_K_def md5_S_def rotl32_def

lemma collision_a_words:
  "le_words (md5_pad (map of_char ''TEXTCOLLBYfGiJUETHQ4hAcKSMd5zYpgqf1YRDhkmxHkhPWptrkoyz28wnI9V0aHeAuaKnak'')) =
     [1415071060, 1280069443, 1197889858, 1163217513, 877742164, 1264796008, 895765843, 1735416186,
      1496409713, 1801995346, 1799911533, 1884770408, 1869312628, 942832249, 961113719, 1214328918,
      1635074405, 1801547339, 128, 0, 0, 0, 0, 0,
      0, 0, 0, 0, 0, 0, 576, 0]"
  by (simp add: md5_pad_def le_bytes8_def le_bytes4_def replicate_numeral)

lemma collision_a_block1:
  "md5_block md5_init
     [1415071060, 1280069443, 1197889858, 1163217513, 877742164, 1264796008, 895765843, 1735416186,
      1496409713, 1801995346, 1799911533, 1884770408, 1869312628, 942832249, 961113719, 1214328918] = (3794714596, 2653601834, 2607495017, 3445199489)"
  by (simp add: md5_init_def md5_round_eval)

lemma collision_a_block2:
  "md5_block (3794714596, 2653601834, 2607495017, 3445199489)
     [1635074405, 1801547339, 128, 0, 0, 0, 0, 0,
      0, 0, 0, 0, 0, 0, 576, 0] = (2252975610, 4237857902, 687151383, 1761770142)"
  by (simp add: md5_round_eval)

lemma collision_a_state:
  "md5_blocks md5_init (le_words (md5_pad (map of_char ''TEXTCOLLBYfGiJUETHQ4hAcKSMd5zYpgqf1YRDhkmxHkhPWptrkoyz28wnI9V0aHeAuaKnak''))) = (2252975610, 4237857902, 687151383, 1761770142)"
  unfolding collision_a_words
  by (simp add: collision_a_block1 collision_a_block2)

lemma collision_a_md5:
  "md5 ''TEXTCOLLBYfGiJUETHQ4hAcKSMd5zYpgqf1YRDhkmxHkhPWptrkoyz28wnI9V0aHeAuaKnak'' = ''faad49866e9498fc1719f5289e7a0269''"
  unfolding md5_def collision_a_state
  by (simp add: md5_hex_def le_bytes4_def hex_byte_def hex_digit_def)

lemma collision_b_words:
  "le_words (md5_pad (map of_char ''TEXTCOLLBYfGiJUETHQ4hEcKSMd5zYpgqf1YRDhkmxHkhPWptrkoyz28wnI9V0aHeAuaKnak'')) =
     [1415071060, 1280069443, 1197889858, 1163217513, 877742164, 1264797032, 895765843, 1735416186,
      1496409713, 1801995346, 1799911533, 1884770408, 1869312628, 942832249, 961113719, 1214328918,
      1635074405, 1801547339, 128, 0, 0, 0, 0, 0,
      0, 0, 0, 0, 0, 0, 576, 0]"
  by (simp add: md5_pad_def le_bytes8_def le_bytes4_def replicate_numeral)

lemma collision_b_block1:
  "md5_block md5_init
     [1415071060, 1280069443, 1197889858, 1163217513, 877742164, 1264797032, 895765843, 1735416186,
      1496409713, 1801995346, 1799911533, 1884770408, 1869312628, 942832249, 961113719, 1214328918] = (1647230948, 506118186, 460011369, 1297715841)"
  by (simp add: md5_init_def md5_round_eval)

lemma collision_b_block2:
  "md5_block (1647230948, 506118186, 460011369, 1297715841)
     [1635074405, 1801547339, 128, 0, 0, 0, 0, 0,
      0, 0, 0, 0, 0, 0, 576, 0] = (2252975610, 4237857902, 687151383, 1761770142)"
  by (simp add: md5_round_eval)

lemma collision_b_state:
  "md5_blocks md5_init (le_words (md5_pad (map of_char ''TEXTCOLLBYfGiJUETHQ4hEcKSMd5zYpgqf1YRDhkmxHkhPWptrkoyz28wnI9V0aHeAuaKnak''))) = (2252975610, 4237857902, 687151383, 1761770142)"
  unfolding collision_b_words
  by (simp add: collision_b_block1 collision_b_block2)

lemma collision_b_md5:
  "md5 ''TEXTCOLLBYfGiJUETHQ4hEcKSMd5zYpgqf1YRDhkmxHkhPWptrkoyz28wnI9V0aHeAuaKnak'' = ''faad49866e9498fc1719f5289e7a0269''"
  unfolding md5_def collision_b_state
  by (simp add: md5_hex_def le_bytes4_def hex_byte_def hex_digit_def)

section \<open>Properties of the sequence hash\<close>

lemma insert_sequence_hashed:
  assumes "\<forall>r \<in> set rows. sequence_hash r = Some (md5 (sequence r))"
    and "distinct (map sequence_hash rows)"
    and "insert_sequence rows (Sequence_init kw) = Inr rows'"
  shows "(\<forall>r \<in> set rows'. sequence_hash r = Some (md5 (sequence r)))
    \<and> distinct (map sequence_hash rows')"
  using assms
  by (auto simp: insert_sequence_def Sequence_init_def split: option.splits if_splits)

lemma add_sequences_hashed:
  "\<forall>r \<in> set rows. sequence_hash r = Some (md5 (sequence r))
   \<Longrightarrow> distinct (map sequence_hash rows)
   \<Longrightarrow> (\<forall>r \<in> set (add_sequences rows kws). sequence_hash r = Some (md5 (sequence r)))
     \<and> distinct (map sequence_hash (add_sequences rows kws))"
proof (induction kws arbitrary: rows)
  case Nil
  then show ?case by simp
next
  case (Cons kw kws)
  show ?case
  proof (cases "insert_sequence rows (Sequence_init kw)")
    case (Inl e)
    then have eq: "add_sequences rows (kw # kws) = add_sequences rows kws" by simp
    show ?thesis unfolding eq by (rule Cons.IH [OF Cons.prems])
  next
    case (Inr rows')
    then have eq: "add_sequences rows (kw # kws) = add_sequences rows' kws" by simp
    note p = insert_sequence_hashed [OF Cons.prems Inr]
    show ?thesis unfolding eq by (rule Cons.IH [OF p [THEN conjunct1] p [THEN conjunct2]])
  qed
qed

lemma hashed_distinct_sequences:
  assumes h: "\<forall>r \<in> set rows. sequence_hash r = Some (md5 (sequence r))"
    and d: "distinct (map sequence_hash rows)"
  shows "distinct (map sequence rows)"
proof -
  have "map sequence_hash rows = map (\<lambda>s. Some (md5 s)) (map sequence rows)"
    using h by (simp add: comp_def cong: map_cong)
  with d have "distinct (map (\<lambda>s. Some (md5 s)) (map sequence rows))" by simp
  then show ?thesis by (simp only: distinct_map)
qed

text \<open>
  C6, as amended: the constructor sets \<open>sequence_hash\<close> to the MD5 of the sequence string,
  whatever hash the caller passed, so sequences constructed from equal strings receive
  equal hashes; with the unique index on \<open>sequence_hash\<close>, a table filled through the
  constructor never holds a string twice, and a string that is already stored is rejected.
\<close>

theorem sequence_hash_is_md5_of_sequence:
  "obj_sequence_hash (Sequence_init kw) = map_option md5 (kw_sequence kw)
   \<and> (kw_sequence kw = kw_sequence kw' \<longrightarrow>
        obj_sequence_hash (Sequence_init kw) = obj_sequence_hash (Sequence_init kw'))
   \<and> distinct (map sequence (add_sequences [] kws))
   \<and> (\<forall>r \<in> set (add_sequences [] kws).
        sequence_hash r = Some (md5 (sequence r))
        \<and> insert_sequence (add_sequences [] kws)
             (Sequence_init \<lparr>kw_sequence = Some (sequence r), kw_sequence_hash = h\<rparr>)
           = Inl UniqueViolation)"
proof -
  have a: "(\<forall>r \<in> set (add_sequences [] kws). sequence_hash r = Some (md5 (sequence r)))
     \<and> distinct (map sequence_hash (add_sequences [] kws))"
    by (rule add_sequences_hashed) simp_all
  then have "distinct (map sequence (add_sequences [] kws))"
    by (simp add: hashed_distinct_sequences)
  moreover have "\<forall>r \<in> set (add_sequences [] kws).
        insert_sequence (add_sequences [] kws)
             (Sequence_init \<lparr>kw_sequence = Some (sequence r), kw_sequence_hash = h\<rparr>)
           = Inl UniqueViolation"
    using a by (auto simp: insert_sequence_def Sequence_init_def image_iff)
  ultimately show ?thesis using a by (simp add: Sequence_init_def)
qed

theorem sequence_hash_is_md5_of_sequence_witness:
  "kw_sequence \<lparr>kw_sequence = Some ''MKV'', kw_sequence_hash = None\<rparr>
     = kw_sequence \<lparr>kw_sequence = Some ''MKV'', kw_sequence_hash = Some ''abc''\<rparr>
   \<and> obj_sequence_hash (Sequence_init \<lparr>kw_sequence = Some ''MKV'', kw_sequence_hash = None\<rparr>)
     = obj_sequence_hash
         (Sequence_init \<lparr>kw_sequence = Some ''MKV'', kw_sequence_hash = Some ''abc''\<rparr>)
   \<and> add_sequences []
        [\<lparr>kw_sequence = Some ''MKV'', kw_sequence_hash = None\<rparr>,
         \<lparr>kw_sequence = Some ''MKV'', kw_sequence_hash = Some ''abc''\<rparr>]
     = [\<lparr>seq_id = 1, sequence = ''MKV'', sequence_hash = Some (md5 ''MKV'')\<rparr>]
   \<and> insert_sequence [\<lparr>seq_id = 1, sequence = ''MKV'', sequence_hash = Some (md5 ''MKV'')\<rparr>]
        (Sequence_init \<lparr>kw_sequence = Some ''MKV'', kw_sequence_hash = None\<rparr>)
     = Inl UniqueViolation"
proof -
  have 1: "kw_sequence \<lparr>kw_sequence = Some ''MKV'', kw_sequence_hash = None\<rparr>
     = kw_sequence \<lparr>kw_sequence = Some ''MKV'', kw_sequence_hash = Some ''abc''\<rparr>"
    by simp
  note same = sequence_hash_is_md5_of_sequence [THEN conjunct2, THEN conjunct1, THEN mp, OF 1]
  have 2: "add_sequences []
        [\<lparr>kw_sequence = Some ''MKV'', kw_sequence_hash = None\<rparr>,
         \<lparr>kw_sequence = Some ''MKV'', kw_sequence_hash = Some ''abc''\<rparr>]
     = [\<lparr>seq_id = 1, sequence = ''MKV'', sequence_hash = Some (md5 ''MKV'')\<rparr>]"
    by (simp add: insert_sequence_def Sequence_init_def next_id_def)
  note stored = sequence_hash_is_md5_of_sequence
    [where kws = "[\<lparr>kw_sequence = Some ''MKV'', kw_sequence_hash = None\<rparr>,
                   \<lparr>kw_sequence = Some ''MKV'', kw_sequence_hash = Some ''abc''\<rparr>]"
       and h = None, THEN conjunct2, THEN conjunct2, THEN conjunct2, unfolded 2]
  then have 3: "insert_sequence
        [\<lparr>seq_id = 1, sequence = ''MKV'', sequence_hash = Some (md5 ''MKV'')\<rparr>]
        (Sequence_init \<lparr>kw_sequence = Some ''MKV'', kw_sequence_hash = None\<rparr>)
     = Inl UniqueViolation"
    by simp
  from 1 same 2 3 show ?thesis by (intro conjI)
qed

text \<open>
  C6 as stated fails: the two strings differ and receive the same hash, so the unique index
  takes the second for a duplicate of the first.
\<close>

theorem sequence_hash_collision:
  "collision_a \<noteq> collision_b
   \<and> obj_sequence_hash (Sequence_init \<lparr>kw_sequence = Some collision_a, kw_sequence_hash = None\<rparr>)
       = Some ''faad49866e9498fc1719f5289e7a0269''
   \<and> obj_sequence_hash (Sequence_init \<lparr>kw_sequence = Some collision_b, kw_sequence_hash = None\<rparr>)
       = Some ''faad49866e9498fc1719f5289e7a0269''
   \<and> insert_sequence
        [\<lparr>seq_id = 1, sequence = collision_a,
          sequence_hash = Some ''faad49866e9498fc1719f5289e7a0269''\<rparr>]
        (Sequence_init \<lparr>kw_sequence = Some collision_b, kw_sequence_hash = None\<rparr>)
       = Inl UniqueViolation"
proof -
  have a: "md5 collision_a = ''faad49866e9498fc1719f5289e7a0269''"
    unfolding collision_a_def by (rule collision_a_md5)
  have b: "md5 collision_b = ''faad49866e9498fc1719f5289e7a0269''"
    unfolding collision_b_def by (rule collision_b_md5)
  have ne: "collision_a \<noteq> collision_b"
    by (simp add: collision_a_def collision_b_def)
  show ?thesis
    using ne by (simp add: Sequence_init_def insert_sequence_def a b)
qed

section \<open>Invariants of the task queue\<close>

lemma state_codes [simp]:
  "Pending \<noteq> Processing" "Pending \<noteq> Completed" "Pending \<noteq> Error"
  "Processing \<noteq> Pending" "Processing \<noteq> Completed" "Processing \<noteq> Error"
  "Completed \<noteq> Pending" "Completed \<noteq> Processing" "Completed \<noteq> Error"
  "Error \<noteq> Pending" "Error \<noteq> Processing" "Error \<noteq> Completed"
  by (simp_all add: Pending_def Processing_def Completed_def Error_def)

lemma enqueue_alt:
  "enqueue mr now ce aty db =
     (if list_ex (\<lambda>r. cluster_entry_id r = ce \<and> alignment_type_id r = aty \<and> \<not> is_terminal mr r)
           (queue db)
      then Inr db
      else insert_queue now db
             \<lparr>kw_cluster_entry_id = Some ce, kw_alignment_type_id = Some aty,
              kw_state = None, kw_retry_count = None, kw_error_message = None\<rparr>)"
  by (simp add: enqueue_def constrained_insert_queue_def pair_constraint_violated_def
      insert_queue_def split: sum.splits)

lemma find_id_Some:
  "find (\<lambda>r. queue_id r = tid) rows = Some t \<Longrightarrow> t \<in> set rows \<and> queue_id t = tid"
  by (induction rows) (auto split: if_splits)

lemma find_Some_mem: "find P rows = Some t \<Longrightarrow> t \<in> set rows \<and> P t"
  by (induction rows) (auto split: if_splits)

lemma distinct_id_eq:
  "distinct (map queue_id rows) \<Longrightarrow> r \<in> set rows \<Longrightarrow> t \<in> set rows
     \<Longrightarrow> queue_id r = queue_id t \<Longrightarrow> r = t"
  by (induction rows) (auto simp: image_iff)

lemma update_task_ids [simp]:
  "(\<And>r. queue_id (f r) = queue_id r) \<Longrightarrow> map queue_id (update_task tid f rows) = map queue_id rows"
  by (induction rows) (auto simp: update_task_def)

lemma length_update_task [simp]: "length (update_task tid f rows) = length rows"
  by (simp add: update_task_def)

lemma set_update_task:
  "r' \<in> set (update_task tid f rows) \<Longrightarrow>
   \<exists>r \<in> set rows. r' = (if queue_id r = tid then f r else r)"
  by (auto simp: update_task_def)

lemma filter_map_le:
  "(\<And>x. x \<in> set xs \<Longrightarrow> P (g x) \<Longrightarrow> P x) \<Longrightarrow> length (filter P (map g xs)) \<le> length (filter P xs)"
  by (induction xs) (auto simp: le_Suc_eq)

lemma filter_map_eq:
  "(\<And>x. x \<in> set xs \<Longrightarrow> P (g x) = P x) \<Longrightarrow> length (filter P (map g xs)) = length (filter P xs)"
  by (induction xs) auto

lemma filter_update_task_Suc:
  "distinct (map queue_id rows) \<Longrightarrow> t \<in> set rows \<Longrightarrow> queue_id t = tid \<Longrightarrow> \<not> P t \<Longrightarrow> P (f t)
   \<Longrightarrow> (\<And>r. queue_id (f r) = queue_id r)
   \<Longrightarrow> length (filter P (update_task tid f rows)) = Suc (length (filter P rows))"
proof (induction rows)
  case Nil
  then show ?case by simp
next
  case (Cons r rows)
  show ?case
  proof (cases "r = t")
    case True
    with Cons.prems have "\<forall>x \<in> set rows. queue_id x \<noteq> tid" by (auto simp: image_iff)
    then have "update_task tid f rows = rows"
      by (simp add: update_task_def map_idI)
    with True Cons.prems show ?thesis by (simp add: update_task_def)
  next
    case False
    with Cons.prems have t: "t \<in> set rows" and ne: "queue_id r \<noteq> tid"
      by (auto simp: image_iff)
    from Cons.prems t have "length (filter P (update_task tid f rows)) = Suc (length (filter P rows))"
      by (intro Cons.IH) auto
    with ne show ?thesis by (simp add: update_task_def)
  qed
qed

lemma update_task_single:
  "distinct (map queue_id rows) \<Longrightarrow> t \<in> set rows \<Longrightarrow> queue_id t = tid
   \<Longrightarrow> update_task tid f rows = map (\<lambda>r. if r = t then f t else r) rows"
  unfolding update_task_def
  by (rule map_cong) (auto dest: distinct_id_eq)

lemma row_ok_update [simp]:
  "row_ok mr (db\<lparr>queue := q\<rparr>) r = row_ok mr db r"
  "row_ok mr (db\<lparr>results := x\<rparr>) r = row_ok mr db r"
  by (simp_all add: row_ok_def)

lemma open_rows_map_le:
  assumes "\<And>r. r \<in> set rows \<Longrightarrow> cluster_entry_id (g r) = cluster_entry_id r"
    and "\<And>r. r \<in> set rows \<Longrightarrow> alignment_type_id (g r) = alignment_type_id r"
    and "\<And>r. r \<in> set rows \<Longrightarrow> \<not> is_terminal mr (g r) \<Longrightarrow> \<not> is_terminal mr r"
  shows "length (open_rows mr ce aty (map g rows)) \<le> length (open_rows mr ce aty rows)"
  unfolding open_rows_def
  by (rule filter_map_le) (use assms in auto)

lemma completed_map_eq:
  assumes "\<And>r. r \<in> set rows \<Longrightarrow> cluster_entry_id (g r) = cluster_entry_id r"
    and "\<And>r. r \<in> set rows \<Longrightarrow> (state (g r) = Completed) = (state r = Completed)"
  shows "length (filter (\<lambda>r. state r = Completed \<and> cluster_entry_id r = c) (map g rows))
       = length (filter (\<lambda>r. state r = Completed \<and> cluster_entry_id r = c) rows)"
  using assms by (induction rows) auto

text \<open>A map over the rows that keeps keys and pairs, closes no terminal row and completes none.\<close>

lemma map_rows_inv:
  assumes inv: "queue_inv mr db"
    and id: "\<And>r. r \<in> set (queue db) \<Longrightarrow> queue_id (g r) = queue_id r"
    and ce: "\<And>r. r \<in> set (queue db) \<Longrightarrow> cluster_entry_id (g r) = cluster_entry_id r"
    and aty: "\<And>r. r \<in> set (queue db) \<Longrightarrow> alignment_type_id (g r) = alignment_type_id r"
    and ok: "\<And>r. r \<in> set (queue db) \<Longrightarrow> row_ok mr db r \<Longrightarrow> row_ok mr db (g r)"
    and nterm: "\<And>r. r \<in> set (queue db) \<Longrightarrow> \<not> is_terminal mr (g r) \<Longrightarrow> \<not> is_terminal mr r"
    and comp: "\<And>r. r \<in> set (queue db) \<Longrightarrow> (state (g r) = Completed) = (state r = Completed)"
  shows "queue_inv mr (db\<lparr>queue := map g (queue db)\<rparr>)"
proof -
  have ids: "map (queue_id \<circ> g) (queue db) = map queue_id (queue db)"
    by (rule map_cong) (use id in auto)
  have 1: "inv_ids (db\<lparr>queue := map g (queue db)\<rparr>)"
    using inv by (simp add: queue_inv_def inv_ids_def ids)
  have 2: "inv_rows mr (db\<lparr>queue := map g (queue db)\<rparr>)"
    using inv ok by (auto simp: queue_inv_def inv_rows_def row_ok_def)
  have 3: "inv_unique mr (db\<lparr>queue := map g (queue db)\<rparr>)"
    unfolding inv_unique_def
  proof (intro allI)
    fix c a
    have "length (open_rows mr c a (map g (queue db))) \<le> length (open_rows mr c a (queue db))"
      by (rule open_rows_map_le) (use ce aty nterm in auto)
    also have "\<dots> \<le> 1" using inv by (simp add: queue_inv_def inv_unique_def)
    finally show "length (open_rows mr c a (queue (db\<lparr>queue := map g (queue db)\<rparr>))) \<le> 1"
      by simp
  qed
  have 4: "inv_results (db\<lparr>queue := map g (queue db)\<rparr>)"
    unfolding inv_results_def
  proof (intro allI)
    fix c
    have "length (completed_for c (db\<lparr>queue := map g (queue db)\<rparr>)) = length (completed_for c db)"
      unfolding completed_for_def using completed_map_eq [of "queue db" g c] ce comp by simp
    moreover have "results_for c (db\<lparr>queue := map g (queue db)\<rparr>) = results_for c db"
      by (simp add: results_for_def)
    ultimately show "length (results_for c (db\<lparr>queue := map g (queue db)\<rparr>))
        = length (completed_for c (db\<lparr>queue := map g (queue db)\<rparr>))"
      using inv by (simp add: queue_inv_def inv_results_def)
  qed
  from 1 2 3 4 show ?thesis by (simp add: queue_inv_def)
qed

lemma claim_row_simps [simp]:
  "queue_id (claim_row now r) = queue_id r"
  "cluster_entry_id (claim_row now r) = cluster_entry_id r"
  "alignment_type_id (claim_row now r) = alignment_type_id r"
  "state (claim_row now r) = Processing"
  "retry_count (claim_row now r) = retry_count r"
  "error_message (claim_row now r) = error_message r"
  by (simp_all add: claim_row_def)

lemma complete_row_simps [simp]:
  "queue_id (complete_row now r) = queue_id r"
  "cluster_entry_id (complete_row now r) = cluster_entry_id r"
  "alignment_type_id (complete_row now r) = alignment_type_id r"
  "state (complete_row now r) = Completed"
  "retry_count (complete_row now r) = retry_count r"
  by (simp_all add: complete_row_def)

lemma fail_row_simps [simp]:
  "queue_id (fail_row mr msg now r) = queue_id r"
  "cluster_entry_id (fail_row mr msg now r) = cluster_entry_id r"
  "alignment_type_id (fail_row mr msg now r) = alignment_type_id r"
  "state (fail_row mr msg now r) = (if retry_count r + 1 \<le> mr then Pending else Error)"
  "retry_count (fail_row mr msg now r) = retry_count r + 1"
  "error_message (fail_row mr msg now r) = Some msg"
  by (simp_all add: fail_row_def)

lemma not_terminal_Processing: "state r = Processing \<Longrightarrow> \<not> is_terminal mr r"
  by (simp add: is_terminal_def)

lemma claimable_not_terminal: "claimable mr r \<Longrightarrow> \<not> is_terminal mr r"
  by (auto simp: claimable_def retry_eligible_def is_terminal_def)

lemma claim_inv:
  assumes inv: "queue_inv mr db"
  shows "queue_inv mr (snd (claim mr w now db))"
proof (cases "find (claimable mr) (queue db)")
  case None
  with inv show ?thesis by (simp add: claim_def)
next
  case (Some t)
  then have t: "t \<in> set (queue db)" "claimable mr t" by (auto dest: find_Some_mem)
  from inv have d: "distinct (map queue_id (queue db))" by (simp add: queue_inv_def inv_ids_def)
  let ?g = "\<lambda>r. if r = t then claim_row now t else r"
  have u: "update_task (queue_id t) (claim_row now) (queue db) = map ?g (queue db)"
    using d t(1) by (rule update_task_single) simp
  have "queue_inv mr (db\<lparr>queue := map ?g (queue db)\<rparr>)"
  proof (rule map_rows_inv [OF inv])
    fix r assume "r \<in> set (queue db)" "row_ok mr db r"
    then show "row_ok mr db (?g r)" by (auto simp: row_ok_def)
  next
    fix r assume "r \<in> set (queue db)" "\<not> is_terminal mr (?g r)"
    then show "\<not> is_terminal mr r" using t(2) by (auto dest: claimable_not_terminal split: if_splits)
  next
    fix r assume "r \<in> set (queue db)"
    then show "(state (?g r) = Completed) = (state r = Completed)"
      using t(2) by (auto simp: claimable_def retry_eligible_def)
  qed auto
  with Some u show ?thesis by (simp add: claim_def)
qed

lemma fail_inv:
  assumes inv: "queue_inv mr db" and h: "holds_task tid db"
  shows "queue_inv mr (fail mr tid msg now db)"
proof -
  from h obtain t where g: "get_task tid db = Some t" and p: "state t = Processing"
    by (auto simp: holds_task_def split: option.splits)
  then have t: "t \<in> set (queue db)" "queue_id t = tid"
    by (auto simp: get_task_def dest: find_id_Some)
  from inv have d: "distinct (map queue_id (queue db))" by (simp add: queue_inv_def inv_ids_def)
  let ?g = "\<lambda>r. if r = t then fail_row mr msg now t else r"
  have u: "update_task tid (fail_row mr msg now) (queue db) = map ?g (queue db)"
    using d t by (rule update_task_single)
  have "queue_inv mr (db\<lparr>queue := map ?g (queue db)\<rparr>)"
  proof (rule map_rows_inv [OF inv])
    fix r assume "r \<in> set (queue db)" "row_ok mr db r"
    then show "row_ok mr db (?g r)" by (auto simp: row_ok_def)
  next
    fix r assume "r \<in> set (queue db)" "\<not> is_terminal mr (?g r)"
    then show "\<not> is_terminal mr r" using p by (auto dest: not_terminal_Processing split: if_splits)
  next
    fix r assume "r \<in> set (queue db)"
    then show "(state (?g r) = Completed) = (state r = Completed)"
      using p by auto
  qed auto
  with u show ?thesis by (simp add: fail_def)
qed

lemma recover_stale_inv:
  assumes inv: "queue_inv mr db"
  shows "queue_inv mr (recover_stale mr timeout now db)"
proof -
  let ?g = "\<lambda>r. if state r = Processing \<and> updated_at r + timeout < now
                 then fail_row mr ''stale claim'' now r else r"
  have "queue_inv mr (db\<lparr>queue := map ?g (queue db)\<rparr>)"
  proof (rule map_rows_inv [OF inv])
    fix r assume "r \<in> set (queue db)" "row_ok mr db r"
    then show "row_ok mr db (?g r)" by (auto simp: row_ok_def)
  next
    fix r assume "r \<in> set (queue db)" "\<not> is_terminal mr (?g r)"
    then show "\<not> is_terminal mr r" by (auto dest: not_terminal_Processing split: if_splits)
  next
    fix r assume "r \<in> set (queue db)"
    then show "(state (?g r) = Completed) = (state r = Completed)"
      by auto
  qed auto
  then show ?thesis by (simp add: recover_stale_def)
qed

lemma complete_inv:
  assumes inv: "queue_inv mr db" and h: "holds_task tid db"
    and c: "complete tid result now db = Inr db'"
  shows "queue_inv mr db'"
proof -
  from h obtain t where g: "get_task tid db = Some t" and p: "state t = Processing"
    by (auto simp: holds_task_def split: option.splits)
  then have t: "t \<in> set (queue db)" "queue_id t = tid"
    by (auto simp: get_task_def dest: find_id_Some)
  from inv have d: "distinct (map queue_id (queue db))" by (simp add: queue_inv_def inv_ids_def)
  let ?g = "\<lambda>r. if r = t then complete_row now t else r"
  let ?row = "\<lparr>result_id = next_id (map result_id (results db)),
               result_cluster_entry_id = Some (cluster_entry_id t), metrics = result\<rparr>"
  have u: "update_task tid (complete_row now) (queue db) = map ?g (queue db)"
    using d t by (rule update_task_single)
  from inv t(1) have fk: "cluster_entry_id t \<in> set (map cluster_id (clusters db))"
    by (auto simp: queue_inv_def inv_rows_def row_ok_def)
  from c g fk u have db': "db' = db\<lparr>results := results db @ [?row], queue := map ?g (queue db)\<rparr>"
    by (auto simp: complete_def insert_results_def)
  have ids: "map (queue_id \<circ> ?g) (queue db) = map queue_id (queue db)"
    by (rule map_cong) auto
  have 1: "inv_ids db'"
    using d by (simp add: db' inv_ids_def ids)
  have 2: "inv_rows mr db'"
    using inv by (auto simp: db' queue_inv_def inv_rows_def row_ok_def)
  have 3: "inv_unique mr db'"
    unfolding inv_unique_def
  proof (intro allI)
    fix c a
    have "length (open_rows mr c a (map ?g (queue db))) \<le> length (open_rows mr c a (queue db))"
    proof (rule open_rows_map_le)
      fix r assume "r \<in> set (queue db)" "\<not> is_terminal mr (?g r)"
      then show "\<not> is_terminal mr r"
        using p by (auto dest: not_terminal_Processing split: if_splits)
    qed auto
    also have "\<dots> \<le> 1" using inv by (simp add: queue_inv_def inv_unique_def)
    finally show "length (open_rows mr c a (queue db')) \<le> 1"
      by (simp add: db')
  qed
  have 4: "inv_results db'"
    unfolding inv_results_def
  proof (intro allI)
    fix c
    from inv have eq: "length (results_for c db) = length (completed_for c db)"
      by (simp add: queue_inv_def inv_results_def)
    show "length (results_for c db') = length (completed_for c db')"
    proof (cases "c = cluster_entry_id t")
      case True
      have "length (filter (\<lambda>r. state r = Completed \<and> cluster_entry_id r = c)
               (update_task tid (complete_row now) (queue db)))
            = Suc (length (filter (\<lambda>r. state r = Completed \<and> cluster_entry_id r = c) (queue db)))"
        by (rule filter_update_task_Suc [OF d t]) (use p True in auto)
      then have "length (completed_for c db') = Suc (length (completed_for c db))"
        by (simp add: completed_for_def db' u)
      moreover have "length (results_for c db') = Suc (length (results_for c db))"
        using True by (simp add: results_for_def db')
      ultimately show ?thesis using eq by simp
    next
      case False
      have "length (filter (\<lambda>r. state r = Completed \<and> cluster_entry_id r = c) (map ?g (queue db)))
            = length (filter (\<lambda>r. state r = Completed \<and> cluster_entry_id r = c) (queue db))"
        by (rule filter_map_eq [where P = "\<lambda>r. state r = Completed \<and> cluster_entry_id r = c"])
          (use False in auto)
      then have "length (completed_for c db') = length (completed_for c db)"
        by (simp add: completed_for_def db')
      moreover have "length (results_for c db') = length (results_for c db)"
        using False by (simp add: results_for_def db')
      ultimately show ?thesis using eq by simp
    qed
  qed
  from 1 2 3 4 show ?thesis by (simp add: queue_inv_def)
qed

lemma list_ex_open_rows:
  "list_ex (\<lambda>r. cluster_entry_id r = ce \<and> alignment_type_id r = aty \<and> \<not> is_terminal mr r) rows
     = (open_rows mr ce aty rows \<noteq> [])"
  by (induction rows) (auto simp: open_rows_def)

lemma enqueue_inv:
  assumes inv: "queue_inv mr db" and e: "enqueue mr now ce aty db = Inr db'"
  shows "queue_inv mr db'"
proof (cases "open_rows mr ce aty (queue db) = []")
  case False
  with e inv show ?thesis by (simp add: enqueue_alt list_ex_open_rows)
next
  case True
  let ?row = "\<lparr>queue_id = next_id (map queue_id (queue db)), cluster_entry_id = ce,
               alignment_type_id = aty, state = 0, retry_count = 0, error_message = None,
               created_at = now, updated_at = now\<rparr>"
  from e True have fk: "ce \<in> set (map cluster_id (clusters db))"
    and db': "db' = db\<lparr>queue := queue db @ [?row]\<rparr>"
    by (auto simp: enqueue_alt list_ex_open_rows insert_queue_def split: if_splits)
  have 1: "inv_ids db'"
    using inv next_id_fresh [of "map queue_id (queue db)"]
    by (simp add: db' queue_inv_def inv_ids_def)
  have "row_ok mr db ?row"
    using fk by (simp add: row_ok_def Pending_def Error_def)
  then have 2: "inv_rows mr db'"
    using inv by (auto simp: db' queue_inv_def inv_rows_def)
  have 3: "inv_unique mr db'"
    unfolding inv_unique_def
  proof (intro allI)
    fix c a
    show "length (open_rows mr c a (queue db')) \<le> 1"
    proof (cases "c = ce \<and> a = aty")
      case True
      with \<open>open_rows mr ce aty (queue db) = []\<close> show ?thesis
        by (simp add: db' open_rows_def)
    next
      case False
      then have "open_rows mr c a (queue db') = open_rows mr c a (queue db)"
        by (auto simp: db' open_rows_def)
      with inv show ?thesis by (simp add: queue_inv_def inv_unique_def)
    qed
  qed
  have 4: "inv_results db'"
    using inv
    by (simp add: db' queue_inv_def inv_results_def results_for_def completed_for_def
        Completed_def)
  from 1 2 3 4 show ?thesis by (simp add: queue_inv_def)
qed

lemma apply_op_inv:
  assumes inv: "queue_inv mr db" and a: "apply_op mr op db = Some db'"
  shows "queue_inv mr db'"
proof (cases op)
  case (Enqueue now ce aty)
  with a have "enqueue mr now ce aty db = Inr db'" by (simp split: sum.splits)
  with inv show ?thesis by (rule enqueue_inv)
next
  case (Claim w now)
  with a have "db' = snd (claim mr w now db)" by simp
  with inv show ?thesis by (simp add: claim_inv)
next
  case (Complete tid result now)
  with a have "holds_task tid db" "complete tid result now db = Inr db'"
    by (simp_all split: sum.splits if_splits)
  with inv show ?thesis by (rule complete_inv)
next
  case (CrashedComplete tid result now)
  with a have "db' = db" by (simp split: if_splits)
  with inv show ?thesis by simp
next
  case (Fail tid msg now)
  with a have "holds_task tid db" "db' = fail mr tid msg now db"
    by (simp_all split: if_splits)
  with inv show ?thesis by (simp add: fail_inv)
next
  case (RecoverStale timeout now)
  with a have "db' = recover_stale mr timeout now db" by simp
  with inv show ?thesis by (simp add: recover_stale_inv)
qed

lemma run_ops_inv:
  "queue_inv mr db \<Longrightarrow> run_ops mr ops db = Some db' \<Longrightarrow> queue_inv mr db'"
proof (induction ops arbitrary: db)
  case Nil
  then show ?case by simp
next
  case (Cons op ops)
  from Cons.prems(2) obtain db1 where 1: "apply_op mr op db = Some db1"
    and 2: "run_ops mr ops db1 = Some db'"
    by (auto split: option.splits)
  from Cons.prems(1) 1 have "queue_inv mr db1" by (rule apply_op_inv)
  then show ?case using 2 by (rule Cons.IH)
qed

lemma fresh_inv: "fresh db \<Longrightarrow> queue_inv mr db"
  by (simp add: fresh_def queue_inv_def inv_ids_def inv_rows_def inv_unique_def inv_results_def
      open_rows_def results_for_def completed_for_def)

lemma reachable_inv: "fresh db0 \<Longrightarrow> run_ops mr ops db0 = Some db \<Longrightarrow> queue_inv mr db"
  by (rule run_ops_inv [OF fresh_inv])

lemma inv_not_claimable:
  "queue_inv mr db \<Longrightarrow> r \<in> set (queue db) \<Longrightarrow> state r = Completed \<or> state r = Error
   \<Longrightarrow> \<not> claimable mr r"
  by (auto simp: queue_inv_def inv_rows_def row_ok_def claimable_def retry_eligible_def)

lemma row_step_refl: "row_step mr r r"
  by (simp add: row_step_def)

lemma row_step_claim: "claimable mr r \<Longrightarrow> \<not> retry_eligible mr r \<Longrightarrow> row_step mr r (claim_row now r)"
  by (auto simp: row_step_def op_transition_def claimable_def retry_eligible_def)

lemma row_step_complete: "state r = Processing \<Longrightarrow> row_step mr r (complete_row now r)"
  by (auto simp: row_step_def op_transition_def)

lemma row_step_fail: "state r = Processing \<Longrightarrow> row_step mr r (fail_row mr msg now r)"
  by (auto simp: row_step_def op_transition_def)

text \<open>The shape of one operation: a map over the old rows, then the new rows.\<close>

lemma apply_op_shape:
  assumes inv: "queue_inv mr db" and a: "apply_op mr op db = Some db'"
  shows "\<exists>g new. queue db' = map g (queue db) @ new
           \<and> (\<forall>r \<in> set (queue db). row_step mr r (g r))
           \<and> list_all starts_pending new"
proof (cases op)
  case (Enqueue now ce aty)
  with a have e: "enqueue mr now ce aty db = Inr db'" by (simp split: sum.splits)
  show ?thesis
  proof (cases "open_rows mr ce aty (queue db) = []")
    case False
    with e have "db' = db" by (simp add: enqueue_alt list_ex_open_rows)
    then have "queue db' = map (\<lambda>r. r) (queue db) @ []" by simp
    then show ?thesis using row_step_refl by (intro exI conjI) (assumption, auto)
  next
    case True
    with e obtain row where "queue db' = map (\<lambda>r. r) (queue db) @ [row]" "starts_pending row"
      by (auto simp: enqueue_alt list_ex_open_rows insert_queue_def starts_pending_def Pending_def
          split: if_splits)
    then show ?thesis using row_step_refl by (intro exI conjI) (assumption, auto)
  qed
next
  case (Claim w now)
  with a have db': "db' = snd (claim mr w now db)" by simp
  show ?thesis
  proof (cases "find (claimable mr) (queue db)")
    case None
    with db' have "queue db' = map (\<lambda>r. r) (queue db) @ []" by (simp add: claim_def)
    then show ?thesis using row_step_refl by (intro exI conjI) (assumption, auto)
  next
    case (Some t)
    then have t: "t \<in> set (queue db)" "claimable mr t" by (auto dest: find_Some_mem)
    from inv have d: "distinct (map queue_id (queue db))" by (simp add: queue_inv_def inv_ids_def)
    let ?g = "\<lambda>r. if r = t then claim_row now t else r"
    have u: "update_task (queue_id t) (claim_row now) (queue db) = map ?g (queue db)"
      using d t(1) by (rule update_task_single) simp
    from inv t have "\<not> retry_eligible mr t"
      by (auto simp: queue_inv_def inv_rows_def row_ok_def retry_eligible_def)
    with t have "row_step mr t (claim_row now t)" by (simp add: row_step_claim)
    then have "\<forall>r \<in> set (queue db). row_step mr r (?g r)" by (simp add: row_step_refl)
    moreover from db' Some u have "queue db' = map ?g (queue db) @ []" by (simp add: claim_def)
    ultimately show ?thesis by (intro exI conjI) (assumption, auto)
  qed
next
  case (Complete tid result now)
  with a have h: "holds_task tid db" and c: "complete tid result now db = Inr db'"
    by (simp_all split: sum.splits if_splits)
  from h obtain t where g: "get_task tid db = Some t" and p: "state t = Processing"
    by (auto simp: holds_task_def split: option.splits)
  then have t: "t \<in> set (queue db)" "queue_id t = tid"
    by (auto simp: get_task_def dest: find_id_Some)
  from inv have d: "distinct (map queue_id (queue db))" by (simp add: queue_inv_def inv_ids_def)
  let ?g = "\<lambda>r. if r = t then complete_row now t else r"
  have u: "update_task tid (complete_row now) (queue db) = map ?g (queue db)"
    using d t by (rule update_task_single)
  from p have "\<forall>r \<in> set (queue db). row_step mr r (?g r)"
    by (simp add: row_step_refl row_step_complete)
  moreover from c g u have "queue db' = map ?g (queue db) @ []"
    by (auto simp: complete_def insert_results_def split: if_splits)
  ultimately show ?thesis by (intro exI conjI) (assumption, auto)
next
  case (CrashedComplete tid result now)
  with a have "db' = db" by (simp split: if_splits)
  then have "queue db' = map (\<lambda>r. r) (queue db) @ []" by simp
  then show ?thesis using row_step_refl by (intro exI conjI) (assumption, auto)
next
  case (Fail tid msg now)
  with a have h: "holds_task tid db" and db': "db' = fail mr tid msg now db"
    by (simp_all split: if_splits)
  from h obtain t where g: "get_task tid db = Some t" and p: "state t = Processing"
    by (auto simp: holds_task_def split: option.splits)
  then have t: "t \<in> set (queue db)" "queue_id t = tid"
    by (auto simp: get_task_def dest: find_id_Some)
  from inv have d: "distinct (map queue_id (queue db))" by (simp add: queue_inv_def inv_ids_def)
  let ?g = "\<lambda>r. if r = t then fail_row mr msg now t else r"
  have u: "update_task tid (fail_row mr msg now) (queue db) = map ?g (queue db)"
    using d t by (rule update_task_single)
  from p have "\<forall>r \<in> set (queue db). row_step mr r (?g r)"
    by (simp add: row_step_refl row_step_fail)
  moreover from db' u have "queue db' = map ?g (queue db) @ []" by (simp add: fail_def)
  ultimately show ?thesis by (intro exI conjI) (assumption, auto)
next
  case (RecoverStale timeout now)
  with a have db': "db' = recover_stale mr timeout now db" by simp
  let ?g = "\<lambda>r. if state r = Processing \<and> updated_at r + timeout < now
                 then fail_row mr ''stale claim'' now r else r"
  have "\<forall>r \<in> set (queue db). row_step mr r (?g r)"
    by (simp add: row_step_refl row_step_fail)
  moreover from db' have "queue db' = map ?g (queue db) @ []" by (simp add: recover_stale_def)
  ultimately show ?thesis by (intro exI conjI) (assumption, auto)
qed

lemma row_step_id: "row_step mr r r' \<Longrightarrow> queue_id r' = queue_id r"
  by (auto simp: row_step_def)

lemma find_map_id:
  "(\<forall>r \<in> set rows. queue_id (g r) = queue_id r)
   \<Longrightarrow> find (\<lambda>r. queue_id r = tid) rows = Some t
   \<Longrightarrow> find (\<lambda>r. queue_id r = tid) (map g rows @ new) = Some (g t)"
  by (induction rows) (auto split: if_splits)

lemma find_update_task:
  "(\<And>r. queue_id (f r) = queue_id r)
   \<Longrightarrow> find (\<lambda>r. queue_id r = tid) rows = Some t
   \<Longrightarrow> find (\<lambda>r. queue_id r = tid) (update_task tid f rows) = Some (f t)"
  by (induction rows) (auto simp: update_task_def split: if_splits)

lemma terminal_stays:
  assumes inv: "queue_inv mr db" and g: "get_task tid db = Some t"
    and s: "state t = Completed \<or> state t = Error"
    and a: "apply_op mr op db = Some db'"
  shows "get_task tid db' = Some t"
proof -
  from apply_op_shape [OF inv a] obtain g new where q: "queue db' = map g (queue db) @ new"
    and st: "\<forall>r \<in> set (queue db). row_step mr r (g r)"
    by blast
  from g have t: "t \<in> set (queue db)" by (auto simp: get_task_def dest: find_id_Some)
  from st have ids: "\<forall>r \<in> set (queue db). queue_id (g r) = queue_id r"
    by (auto dest: row_step_id)
  from g have g': "find (\<lambda>r. queue_id r = tid) (queue db) = Some t"
    by (simp add: get_task_def)
  have "find (\<lambda>r. queue_id r = tid) (map g (queue db) @ new) = Some (g t)"
    by (rule find_map_id [OF ids g'])
  moreover from st t s have "g t = t" by (auto simp: row_step_def)
  ultimately show ?thesis using q by (simp add: get_task_def)
qed

lemma terminal_stays_run:
  "queue_inv mr db \<Longrightarrow> get_task tid db = Some t \<Longrightarrow> state t = Completed \<or> state t = Error
   \<Longrightarrow> run_ops mr ops db = Some db' \<Longrightarrow> get_task tid db' = Some t"
proof (induction ops arbitrary: db)
  case Nil
  then show ?case by simp
next
  case (Cons op ops)
  from Cons.prems(4) obtain db1 where 1: "apply_op mr op db = Some db1"
    and 2: "run_ops mr ops db1 = Some db'"
    by (auto split: option.splits)
  from Cons.prems(1) 1 have i: "queue_inv mr db1" by (rule apply_op_inv)
  from Cons.prems(1,2,3) 1 have "get_task tid db1 = Some t" by (rule terminal_stays)
  from Cons.IH [OF i this Cons.prems(3) 2] show ?case .
qed

lemma claim_skips_terminal:
  assumes inv: "queue_inv mr db" and g: "get_task tid db = Some t"
    and s: "state t = Completed \<or> state t = Error"
  shows "map_option queue_id (fst (claim mr w now db)) \<noteq> Some tid"
proof (cases "find (claimable mr) (queue db)")
  case None
  then show ?thesis by (simp add: claim_def)
next
  case (Some c)
  then have c: "c \<in> set (queue db)" "claimable mr c" by (auto dest: find_Some_mem)
  from g have t: "t \<in> set (queue db)" "queue_id t = tid"
    by (auto simp: get_task_def dest: find_id_Some)
  from inv have d: "distinct (map queue_id (queue db))" by (simp add: queue_inv_def inv_ids_def)
  have "queue_id c \<noteq> tid"
  proof
    assume "queue_id c = tid"
    with d c(1) t have "c = t" by (auto dest: distinct_id_eq)
    with inv t(1) s c(2) show False by (auto dest: inv_not_claimable)
  qed
  with Some show ?thesis by (simp add: claim_def)
qed

lemma fail_get_task:
  "get_task tid db = Some t \<Longrightarrow> get_task tid (fail mr tid msg now db) = Some (fail_row mr msg now t)"
  unfolding get_task_def fail_def by (simp add: find_update_task)

lemma apply_op_results:
  assumes a: "apply_op mr op db = Some db'"
  shows "prefix (results db) (results db')"
proof (cases op)
  case (Enqueue now ce aty)
  with a show ?thesis
    by (auto simp: enqueue_alt insert_queue_def split: sum.splits if_splits option.splits)
next
  case (Claim w now)
  with a show ?thesis by (auto simp: claim_def split: option.splits)
next
  case (Complete tid result now)
  with a show ?thesis
    by (auto simp: complete_def insert_results_def split: sum.splits if_splits option.splits)
next
  case (CrashedComplete tid result now)
  with a show ?thesis by (auto split: if_splits)
next
  case (Fail tid msg now)
  with a show ?thesis by (auto simp: fail_def split: if_splits)
next
  case (RecoverStale timeout now)
  with a show ?thesis by (auto simp: recover_stale_def)
qed

lemma complete_effect:
  assumes inv: "queue_inv mr db" and g: "get_task tid db = Some t"
  shows "complete tid result now db =
           Inr (db\<lparr>results := results db @
                    [\<lparr>result_id = next_id (map result_id (results db)),
                      result_cluster_entry_id = Some (cluster_entry_id t),
                      metrics = result\<rparr>],
                  queue := update_task tid (complete_row now) (queue db)\<rparr>)"
proof -
  from g have "t \<in> set (queue db)" by (auto simp: get_task_def dest: find_id_Some)
  with inv have "cluster_entry_id t \<in> set (map cluster_id (clusters db))"
    by (auto simp: queue_inv_def inv_rows_def row_ok_def)
  with g show ?thesis by (simp add: complete_def insert_results_def)
qed









section \<open>Properties of the task queue and its tables\<close>

lemmas demo_eval =
  demo_db_def demo_task_def demo_kwargs_def no_metrics_def fresh_def
  enqueue_alt insert_queue_def insert_results_def is_terminal_def claimable_def retry_eligible_def
  claim_def claim_row_def complete_def complete_row_def fail_def fail_row_def recover_stale_def
  update_task_def get_task_def holds_task_def next_id_def
  Pending_def Processing_def Completed_def Error_def



text \<open>
  C2: \<open>fail\<close> increments \<open>retry_count\<close> by one and records the message; the state becomes
  Pending if the incremented count is at most the maximum and Error otherwise. A task at
  \<open>max_retries - 1\<close> goes back to Pending, and when it is claimed and fails once more it
  goes to Error. A task that \<open>fail\<close> has put into Error keeps its row through every later
  operation and no later \<open>claim\<close> returns it.
\<close>

theorem fail_retries_then_errors:
  "retry_count (fail_row mr msg now r) = retry_count r + 1
   \<and> error_message (fail_row mr msg now r) = Some msg
   \<and> state (fail_row mr msg now r) = (if retry_count r + 1 \<le> mr then Pending else Error)
   \<and> (retry_count r = mr - 1 \<longrightarrow>
        state (fail_row mr msg now r) = Pending
        \<and> retry_count (claim_row now' (fail_row mr msg now r)) = mr
        \<and> state (fail_row mr msg'' now'' (claim_row now' (fail_row mr msg now r))) = Error)
   \<and> (fresh init \<and> run_ops mr ops init = Some db \<and> get_task tid db = Some t
        \<and> state t = Processing \<and> retry_count t = mr
        \<and> run_ops mr ops' (fail mr tid msg now db) = Some later \<longrightarrow>
        get_task tid later = Some (fail_row mr msg now t)
        \<and> state (fail_row mr msg now t) = Error
        \<and> (\<forall>w clock. map_option queue_id (fst (claim mr w clock later)) \<noteq> Some tid))"
proof (intro conjI impI)
  assume h: "fresh init \<and> run_ops mr ops init = Some db \<and> get_task tid db = Some t
        \<and> state t = Processing \<and> retry_count t = mr
        \<and> run_ops mr ops' (fail mr tid msg now db) = Some later"
  then have inv: "queue_inv mr db" by (auto intro: reachable_inv)
  from h have ht: "holds_task tid db" by (simp add: holds_task_def)
  with inv have inv1: "queue_inv mr (fail mr tid msg now db)" by (rule fail_inv)
  from h have g1: "get_task tid (fail mr tid msg now db) = Some (fail_row mr msg now t)"
    by (simp add: fail_get_task)
  from h have e: "state (fail_row mr msg now t) = Error" by simp
  then have e': "state (fail_row mr msg now t) = Completed \<or> state (fail_row mr msg now t) = Error"
    by simp
  from h have r: "run_ops mr ops' (fail mr tid msg now db) = Some later" by simp
  from inv1 r have invl: "queue_inv mr later" by (rule run_ops_inv)
  from inv1 g1 e' r show g2: "get_task tid later = Some (fail_row mr msg now t)"
    by (rule terminal_stays_run)
  from e show "state (fail_row mr msg now t) = Error" .
  from invl g2 e' show "\<forall>w clock. map_option queue_id (fst (claim mr w clock later)) \<noteq> Some tid"
    by (auto dest: claim_skips_terminal)
qed simp_all

theorem fail_retries_then_errors_witness:
  "retry_count (demo_task 1 Processing 0 None 1 2) = 1 - 1
   \<and> state (fail_row 1 ''again'' 5 (demo_task 1 Processing 0 None 1 2)) = Pending
   \<and> state (fail_row 1 ''once more'' 9
               (claim_row 7 (fail_row 1 ''again'' 5 (demo_task 1 Processing 0 None 1 2)))) = Error
   \<and> fresh demo_db
   \<and> run_ops 1 [Enqueue 1 7 1, Claim 0 2, Fail 1 ''boom'' 3, Claim 0 4] demo_db
       = Some (demo_db\<lparr>queue := [demo_task 1 Processing 1 (Some ''boom'') 1 4]\<rparr>)
   \<and> run_ops 1 [Claim 0 6, RecoverStale 1 9]
        (fail 1 1 ''again'' 5 (demo_db\<lparr>queue := [demo_task 1 Processing 1 (Some ''boom'') 1 4]\<rparr>))
       = Some (demo_db\<lparr>queue := [demo_task 1 Error 2 (Some ''again'') 1 5]\<rparr>)
   \<and> get_task 1 (demo_db\<lparr>queue := [demo_task 1 Error 2 (Some ''again'') 1 5]\<rparr>)
       = Some (demo_task 1 Error 2 (Some ''again'') 1 5)
   \<and> fst (claim 1 (0::nat) 10 (demo_db\<lparr>queue := [demo_task 1 Error 2 (Some ''again'') 1 5]\<rparr>))
       = None"
proof -
  let ?db = "demo_db\<lparr>queue := [demo_task 1 Processing 1 (Some ''boom'') 1 4]\<rparr>"
  let ?later = "demo_db\<lparr>queue := [demo_task 1 Error 2 (Some ''again'') 1 5]\<rparr>"
  have 0: "retry_count (demo_task 1 Processing 0 None 1 2) = 1 - 1"
    by (simp add: demo_task_def)
  note retry = fail_retries_then_errors [where mr = 1 and msg = "''again''" and now = 5
      and r = "demo_task 1 Processing 0 None 1 2" and now' = 7 and msg'' = "''once more''"
      and now'' = 9, THEN conjunct2, THEN conjunct2, THEN conjunct2, THEN conjunct1, THEN mp, OF 0]
  have 1: "fresh demo_db" by (simp add: demo_eval)
  have 2: "run_ops 1 [Enqueue 1 7 1, Claim 0 2, Fail 1 ''boom'' 3, Claim 0 4] demo_db = Some ?db"
    by (simp add: demo_eval)
  have 3: "get_task 1 ?db = Some (demo_task 1 Processing 1 (Some ''boom'') 1 4)"
    by (simp add: demo_eval)
  have 4: "state (demo_task 1 Processing 1 (Some ''boom'') 1 4) = Processing"
    "retry_count (demo_task 1 Processing 1 (Some ''boom'') 1 4) = 1"
    by (simp_all add: demo_task_def)
  have 5: "run_ops 1 [Claim 0 6, RecoverStale 1 9] (fail 1 1 ''again'' 5 ?db) = Some ?later"
    by (simp add: demo_eval)
  have 6: "fail_row 1 ''again'' 5 (demo_task 1 Processing 1 (Some ''boom'') 1 4)
       = demo_task 1 Error 2 (Some ''again'') 1 5"
    by (simp add: demo_eval)
  note imp = fail_retries_then_errors [where mr = 1 and msg = "''again''" and now = 5
      and init = demo_db and ops = "[Enqueue 1 7 1, Claim 0 2, Fail 1 ''boom'' 3, Claim 0 4]"
      and db = ?db and tid = 1 and t = "demo_task 1 Processing 1 (Some ''boom'') 1 4"
      and ops' = "[Claim 0 6, RecoverStale 1 9]" and later = ?later,
      THEN conjunct2, THEN conjunct2, THEN conjunct2, THEN conjunct2]
  have 7: "get_task 1 ?later
      = Some (fail_row 1 ''again'' 5 (demo_task 1 Processing 1 (Some ''boom'') 1 4))"
    by (rule imp [THEN mp, THEN conjunct1]) (intro conjI 1 2 3 4 5)
  have 8: "fst (claim 1 (0::nat) 10 ?later) = None" by (simp add: demo_eval)
  from retry have 9: "state (fail_row 1 ''again'' 5 (demo_task 1 Processing 0 None 1 2)) = Pending"
    and 10: "state (fail_row 1 ''once more'' 9
               (claim_row 7 (fail_row 1 ''again'' 5 (demo_task 1 Processing 0 None 1 2)))) = Error"
    by simp_all
  from 0 9 10 1 2 5 7 8 show ?thesis unfolding 6 by (intro conjI)
qed

text \<open>
  C3: in every database reached from a fresh one, each cluster entry has as many result
  rows as Completed tasks; every operation leaves the existing result rows as they are (the
  table only grows at its end); \<open>complete\<close> on a task held in Processing succeeds, appends
  exactly one result row for the task's cluster entry and sets the task to Completed, and a
  crashed \<open>complete\<close> leaves the database as it was.
\<close>

theorem complete_writes_one_result:
  assumes "fresh db0" and "run_ops mr ops db0 = Some db"
  shows "(\<forall>c. length (results_for c db) = length (completed_for c db))
    \<and> (\<forall>op db'. apply_op mr op db = Some db' \<longrightarrow> prefix (results db) (results db'))
    \<and> (\<forall>tid t result now. get_task tid db = Some t \<and> state t = Processing \<longrightarrow>
          (\<exists>db'. apply_op mr (Complete tid result now) db = Some db'
             \<and> results db' = results db @
                  [\<lparr>result_id = next_id (map result_id (results db)),
                    result_cluster_entry_id = Some (cluster_entry_id t),
                    metrics = result\<rparr>]
             \<and> get_task tid db' = Some (complete_row now t)
             \<and> state (complete_row now t) = Completed)
          \<and> apply_op mr (CrashedComplete tid result now) db = Some db)"
proof (intro conjI allI impI)
  from assms have inv: "queue_inv mr db" by (rule reachable_inv)
  fix c show "length (results_for c db) = length (completed_for c db)"
    using inv by (simp add: queue_inv_def inv_results_def)
next
  fix op db' assume "apply_op mr op db = Some db'"
  then show "prefix (results db) (results db')" by (rule apply_op_results)
next
  from assms have inv: "queue_inv mr db" by (rule reachable_inv)
  fix tid t result now assume h: "get_task tid db = Some t \<and> state t = Processing"
  then have ht: "holds_task tid db" by (simp add: holds_task_def)
  let ?db' = "db\<lparr>results := results db @
                    [\<lparr>result_id = next_id (map result_id (results db)),
                      result_cluster_entry_id = Some (cluster_entry_id t),
                      metrics = result\<rparr>],
                  queue := update_task tid (complete_row now) (queue db)\<rparr>"
  from inv h have c: "complete tid result now db = Inr ?db'" by (simp add: complete_effect)
  with ht have "apply_op mr (Complete tid result now) db = Some ?db'" by simp
  moreover from h have "get_task tid ?db' = Some (complete_row now t)"
    by (simp add: get_task_def find_update_task)
  ultimately show "\<exists>db'. apply_op mr (Complete tid result now) db = Some db'
             \<and> results db' = results db @
                  [\<lparr>result_id = next_id (map result_id (results db)),
                    result_cluster_entry_id = Some (cluster_entry_id t),
                    metrics = result\<rparr>]
             \<and> get_task tid db' = Some (complete_row now t)
             \<and> state (complete_row now t) = Completed"
    by (intro exI [of _ ?db']) simp
  from ht show "apply_op mr (CrashedComplete tid result now) db = Some db" by simp
qed

theorem complete_writes_one_result_witness:
  "fresh demo_db
   \<and> run_ops 3 [Enqueue 1 7 1, Claim 0 2] demo_db
       = Some (demo_db\<lparr>queue := [demo_task 1 Processing 0 None 1 2]\<rparr>)
   \<and> get_task 1 (demo_db\<lparr>queue := [demo_task 1 Processing 0 None 1 2]\<rparr>)
       = Some (demo_task 1 Processing 0 None 1 2)
   \<and> apply_op 3 (CrashedComplete 1 (no_metrics\<lparr>ce_rms := Some (6 / 5)\<rparr>) 3)
         (demo_db\<lparr>queue := [demo_task 1 Processing 0 None 1 2]\<rparr>)
       = Some (demo_db\<lparr>queue := [demo_task 1 Processing 0 None 1 2]\<rparr>)
   \<and> run_ops 3 [Enqueue 1 7 1, Claim 0 2, Complete 1 (no_metrics\<lparr>ce_rms := Some (6 / 5)\<rparr>) 3] demo_db
       = Some (demo_db\<lparr>queue := [demo_task 1 Completed 0 None 1 3],
                       results := [\<lparr>result_id = 1, result_cluster_entry_id = Some 7,
                                    metrics = no_metrics\<lparr>ce_rms := Some (6 / 5)\<rparr>\<rparr>]\<rparr>)
   \<and> length (results_for 7
        (demo_db\<lparr>queue := [demo_task 1 Completed 0 None 1 3],
                 results := [\<lparr>result_id = 1, result_cluster_entry_id = Some 7,
                              metrics = no_metrics\<lparr>ce_rms := Some (6 / 5)\<rparr>\<rparr>]\<rparr>)) = 1
   \<and> length (completed_for 7
        (demo_db\<lparr>queue := [demo_task 1 Completed 0 None 1 3],
                 results := [\<lparr>result_id = 1, result_cluster_entry_id = Some 7,
                              metrics = no_metrics\<lparr>ce_rms := Some (6 / 5)\<rparr>\<rparr>]\<rparr>)) = 1"
proof -
  let ?held = "demo_db\<lparr>queue := [demo_task 1 Processing 0 None 1 2]\<rparr>"
  let ?db = "demo_db\<lparr>queue := [demo_task 1 Completed 0 None 1 3],
                     results := [\<lparr>result_id = 1, result_cluster_entry_id = Some 7,
                                  metrics = no_metrics\<lparr>ce_rms := Some (6 / 5)\<rparr>\<rparr>]\<rparr>"
  have 1: "fresh demo_db" by (simp add: demo_eval)
  have 2: "run_ops 3 [Enqueue 1 7 1, Claim 0 2] demo_db = Some ?held"
    by (simp add: demo_eval)
  have 3: "get_task 1 ?held = Some (demo_task 1 Processing 0 None 1 2)
      \<and> state (demo_task 1 Processing 0 None 1 2) = Processing"
    by (simp add: demo_eval)
  note held = complete_writes_one_result [OF 1 2, THEN conjunct2, THEN conjunct2,
      THEN spec, THEN spec, THEN spec, THEN spec, THEN mp, OF 3, THEN conjunct2]
  have 4: "run_ops 3 [Enqueue 1 7 1, Claim 0 2, Complete 1 (no_metrics\<lparr>ce_rms := Some (6 / 5)\<rparr>) 3]
             demo_db = Some ?db"
    by (simp add: demo_eval)
  note counted = complete_writes_one_result [OF 1 4, THEN conjunct1, THEN spec, of 7]
  have 5: "length (completed_for 7 ?db) = 1"
    by (simp add: completed_for_def demo_eval)
  from 1 2 3 [THEN conjunct1] held [of "no_metrics\<lparr>ce_rms := Some (6 / 5)\<rparr>" 3] 4
    counted [unfolded 5] 5
  show ?thesis by (intro conjI)
qed







text \<open>
  C5, as amended: a stored queue row has a \<open>cluster_entry_id\<close> that is the key of a row of
  \<open>clusters\<close> and an \<open>alignment_type_id\<close> that is the key of a row of
  \<open>structural_alignment_types\<close>; a stored result row has a \<open>cluster_entry_id\<close> that is NULL
  or the key of a row of \<open>clusters\<close>.
\<close>

theorem queue_row_references_cluster:
  "(insert_queue now db kw = Inr db' \<longrightarrow>
      (\<exists>row. queue db' = queue db @ [row]
         \<and> kw_cluster_entry_id kw = Some (cluster_entry_id row)
         \<and> kw_alignment_type_id kw = Some (alignment_type_id row)
         \<and> cluster_entry_id row \<in> set (map cluster_id (clusters db))
         \<and> alignment_type_id row \<in> set (map type_id (structural_alignment_types db))))
   \<and> (insert_results db c m = Inr db'' \<longrightarrow>
      (\<exists>row. results db'' = results db @ [row]
         \<and> result_cluster_entry_id row = c
         \<and> (case c of None \<Rightarrow> True | Some x \<Rightarrow> x \<in> set (map cluster_id (clusters db)))))"
  by (auto simp: insert_queue_def insert_results_def split: option.splits if_splits)

theorem queue_row_references_cluster_witness:
  "insert_queue 1 demo_db (demo_kwargs 7 2)
     = Inr (demo_db\<lparr>queue := [(demo_task 1 Pending 0 None 1 1)\<lparr>alignment_type_id := 2\<rparr>]\<rparr>)
   \<and> insert_results demo_db (Some 7) no_metrics
     = Inr (demo_db\<lparr>results := [\<lparr>result_id = 1, result_cluster_entry_id = Some 7,
                                   metrics = no_metrics\<rparr>]\<rparr>)
   \<and> 7 \<in> set (map cluster_id (clusters demo_db))
   \<and> 2 \<in> set (map type_id (structural_alignment_types demo_db))"
proof -
  have 1: "insert_queue 1 demo_db (demo_kwargs 7 2)
     = Inr (demo_db\<lparr>queue := [(demo_task 1 Pending 0 None 1 1)\<lparr>alignment_type_id := 2\<rparr>]\<rparr>)"
    by (simp add: demo_eval)
  have 2: "insert_results demo_db (Some 7) no_metrics
     = Inr (demo_db\<lparr>results := [\<lparr>result_id = 1, result_cluster_entry_id = Some 7,
                                   metrics = no_metrics\<rparr>]\<rparr>)"
    by (simp add: demo_eval)
  from queue_row_references_cluster [THEN conjunct1, THEN mp, OF 1]
  have 3: "7 \<in> set (map cluster_id (clusters demo_db))
      \<and> 2 \<in> set (map type_id (structural_alignment_types demo_db))"
    by (auto simp: demo_task_def)
  from queue_row_references_cluster [THEN conjunct2, THEN mp, OF 2]
  have "7 \<in> set (map cluster_id (clusters demo_db))"
    by auto
  with 1 2 3 show ?thesis by (intro conjI) simp_all
qed

text \<open>
  C5 as stated fails: the key 1 of the only cluster entry is rejected as \<open>cluster_entry_id\<close>,
  and the key 7 of its cluster, which is the key of no cluster entry, is accepted.
\<close>

theorem cluster_entry_id_is_a_cluster_key:
  "map entry_id (cluster_entries demo_db) = [1]
   \<and> map cluster_id (clusters demo_db) = [7]
   \<and> insert_queue 1 demo_db (demo_kwargs 1 1) = Inl ForeignKeyViolation
   \<and> insert_queue 1 demo_db (demo_kwargs 7 1)
       = Inr (demo_db\<lparr>queue := [demo_task 1 Pending 0 None 1 1]\<rparr>)
   \<and> insert_results demo_db (Some 1) no_metrics = Inl ForeignKeyViolation
   \<and> insert_results demo_db (Some 7) no_metrics
       = Inr (demo_db\<lparr>results := [\<lparr>result_id = 1, result_cluster_entry_id = Some 7,
                                     metrics = no_metrics\<rparr>]\<rparr>)"
  by (simp add: demo_eval)

section \<open>Properties of the clustering engine\<close>

lemma pick_representative_mem: "pick_representative cfg best xs \<in> set (best # xs)"
  by (induction xs arbitrary: best) (auto split: if_splits)

lemma better_trans: "better cfg x y \<Longrightarrow> better cfg y z \<Longrightarrow> better cfg x z"
  by (auto simp: better_def)

lemma pick_representative_best:
  "\<forall>y \<in> set seen. \<not> better cfg y best \<Longrightarrow> \<not> better cfg best best
   \<Longrightarrow> \<forall>y \<in> set seen \<union> set (best # xs). \<not> better cfg y (pick_representative cfg best xs)"
proof (induction xs arbitrary: best seen)
  case Nil
  then show ?case by simp
next
  case (Cons x xs)
  let ?b = "if better cfg x best then x else best"
  have nb: "\<not> better cfg ?b ?b" by (auto simp: better_def)
  have "\<forall>y \<in> set (best # seen). \<not> better cfg y ?b"
    using Cons.prems by (auto dest: better_trans)
  from Cons.IH [OF this nb]
  have "\<forall>y \<in> set (best # seen) \<union> set (?b # xs). \<not> better cfg y (pick_representative cfg ?b xs)" .
  moreover have "\<not> better cfg x (pick_representative cfg ?b xs)"
  proof (cases "better cfg x best")
    case True
    with calculation show ?thesis by simp
  next
    case False
    from calculation have "\<not> better cfg best (pick_representative cfg best xs)"
      using False by simp
    with False show ?thesis
      by (auto simp: better_def)
  qed
  ultimately show ?case by auto
qed

lemma count_same_key:
  "distinct (map f xs) \<Longrightarrow> r \<in> set xs \<Longrightarrow> length (filter (\<lambda>x. f x = f r) xs) = 1"
proof (induction xs)
  case Nil
  then show ?case by simp
next
  case (Cons x xs)
  show ?case
  proof (cases "x = r")
    case True
    with Cons.prems have "\<forall>y \<in> set xs. f y \<noteq> f r" by (auto simp: image_iff)
    then have "filter (\<lambda>x. f x = f r) xs = []" by (simp add: filter_empty_conv)
    with True show ?thesis by simp
  next
    case False
    with Cons.prems have "r \<in> set xs" "f x \<noteq> f r" by (auto simp: image_iff)
    with Cons show ?thesis by simp
  qed
qed

lemma make_entries_one_representative:
  assumes "members \<noteq> []" and "distinct (map seq_id members)"
  shows "length (filter (\<lambda>e. is_representative e = Some True) (make_entries cfg now cid members)) = 1"
proof -
  from assms(1) obtain s ss where m: "members = s # ss" by (cases members) auto
  let ?r = "pick_representative cfg s ss"
  have r: "?r \<in> set members" using pick_representative_mem [of cfg s ss] m by simp
  have "length (filter (\<lambda>e. is_representative e = Some True) (make_entries cfg now cid members))
      = length (filter (\<lambda>x. seq_id x = seq_id ?r) members)"
    by (simp add: make_entries_def m filter_map comp_def)
  also have "\<dots> = 1" using assms(2) r by (rule count_same_key)
  finally show ?thesis .
qed

lemma make_entries_cluster:
  "e \<in> set (make_entries cfg now cid members) \<Longrightarrow> entry_cluster_id e = Some cid"
  by (auto simp: make_entries_def split: list.splits)

lemma length_make_entries [simp]: "length (make_entries cfg now cid members) = length members"
  by (simp add: make_entries_def split: list.splits)

lemma make_clusters_mem:
  "(c, es) \<in> set (make_clusters cfg now cid gs)
   \<Longrightarrow> cid \<le> cluster_id c \<and> (\<exists>g \<in> set gs. es = make_entries cfg now (cluster_id c) g)"
proof (induction gs arbitrary: cid)
  case Nil
  then show ?case by simp
next
  case (Cons g gs)
  from Cons.prems have "(c, es) = (\<lparr>cluster_id = cid, cluster_created_at = now\<rparr>, make_entries cfg now cid g)
      \<or> (c, es) \<in> set (make_clusters cfg now (cid + 1) gs)"
    by simp
  then show ?case
  proof
    assume "(c, es) = (\<lparr>cluster_id = cid, cluster_created_at = now\<rparr>, make_entries cfg now cid g)"
    then show ?thesis by auto
  next
    assume "(c, es) \<in> set (make_clusters cfg now (cid + 1) gs)"
    from Cons.IH [OF this] show ?thesis by auto
  qed
qed

lemma make_clusters_distinct:
  "distinct (map (\<lambda>p. cluster_id (fst p)) (make_clusters cfg now cid gs))"
proof (induction gs arbitrary: cid)
  case Nil
  then show ?case by simp
next
  case (Cons g gs)
  have "cid \<notin> (\<lambda>p. cluster_id (fst p)) ` set (make_clusters cfg now (cid + 1) gs)"
  proof
    assume "cid \<in> (\<lambda>p. cluster_id (fst p)) ` set (make_clusters cfg now (cid + 1) gs)"
    then obtain c es where "(c, es) \<in> set (make_clusters cfg now (cid + 1) gs)" "cluster_id c = cid"
      by auto
    with make_clusters_mem [of c es cfg now "cid + 1" gs] show False by simp
  qed
  with Cons.IH [of "cid + 1"] show ?case by simp
qed

lemma length_make_clusters_entries:
  "length (concat (map snd (make_clusters cfg now cid gs))) = length (concat gs)"
  by (induction gs arbitrary: cid) simp_all

lemma filter_own_entries:
  assumes "distinct (map (\<lambda>p. cluster_id (fst p)) res)"
    and "\<forall>p \<in> set res. \<forall>e \<in> set (snd p). entry_cluster_id e = Some (cluster_id (fst p))"
    and "(c, es) \<in> set res"
  shows "filter (\<lambda>e. entry_cluster_id e = Some (cluster_id c) \<and> R e) (concat (map snd res))
       = filter R es"
  using assms
proof (induction res)
  case Nil
  then show ?case by simp
next
  case (Cons p res)
  show ?case
  proof (cases "p = (c, es)")
    case True
    have own: "filter (\<lambda>e. entry_cluster_id e = Some (cluster_id c) \<and> R e) es = filter R es"
      using Cons.prems(2) True by (intro filter_cong) auto
    have "\<forall>q \<in> set res. cluster_id (fst q) \<noteq> cluster_id c"
      using Cons.prems(1) True by (auto simp: image_iff)
    then have "\<forall>e \<in> set (concat (map snd res)). entry_cluster_id e \<noteq> Some (cluster_id c)"
      using Cons.prems(2) by auto
    then have "filter (\<lambda>e. entry_cluster_id e = Some (cluster_id c) \<and> R e) (concat (map snd res)) = []"
      by (simp add: filter_empty_conv)
    with own True show ?thesis by simp
  next
    case False
    with Cons.prems(3) have m: "(c, es) \<in> set res" by simp
    with Cons.prems(1) have "cluster_id (fst p) \<noteq> cluster_id c" by (auto simp: image_iff)
    then have "\<forall>e \<in> set (snd p). entry_cluster_id e \<noteq> Some (cluster_id c)"
      using Cons.prems(2) by auto
    then have "filter (\<lambda>e. entry_cluster_id e = Some (cluster_id c) \<and> R e) (snd p) = []"
      by (simp add: filter_empty_conv)
    moreover have "filter (\<lambda>e. entry_cluster_id e = Some (cluster_id c) \<and> R e) (concat (map snd res))
        = filter R es"
      using Cons.prems(1,2) m by (intro Cons.IH) auto
    ultimately show ?thesis by simp
  qed
qed

lemma number_filter:
  "(\<And>e i. P (e\<lparr>entry_id := i\<rparr>) = P e) \<Longrightarrow> length (filter P (number k es)) = length (filter P es)"
  by (induction es arbitrary: k) auto

lemma number_mem:
  "e' \<in> set (number k es) \<Longrightarrow> \<exists>e \<in> set es. \<exists>i. e' = e\<lparr>entry_id := i\<rparr>"
  by (induction es arbitrary: k) auto

lemma length_number [simp]: "length (number k es) = length es"
  by (induction es arbitrary: k) auto

lemma groups_mem:
  assumes "g \<in> set (groups label sequences)" and "distinct (map seq_id sequences)"
  shows "g \<noteq> [] \<and> distinct (map seq_id g)"
proof -
  from assms(1) obtain l where l: "l \<in> set (map label sequences)"
    and g: "g = filter (\<lambda>s. label s = l) sequences"
    by (auto simp: groups_def)
  from l obtain s where "s \<in> set sequences" "label s = l" by auto
  then have "s \<in> set g" by (simp add: g)
  then have "g \<noteq> []" by auto
  moreover from assms(2) have "distinct (map seq_id g)" by (simp add: g distinct_map_filter)
  ultimately show ?thesis by simp
qed

lemma count_split:
  "(\<And>x. x \<in> set xs \<Longrightarrow> \<not> (P x \<and> Q x))
   \<Longrightarrow> length (filter P xs) + length (filter Q xs) = length (filter (\<lambda>x. P x \<or> Q x) xs)"
  by (induction xs) auto

lemma length_concat_groups_aux:
  "distinct ls \<Longrightarrow>
   length (concat (map (\<lambda>l. filter (\<lambda>s. f s = l) xs) ls)) = length (filter (\<lambda>s. f s \<in> set ls) xs)"
proof (induction ls)
  case Nil
  then show ?case by simp
next
  case (Cons l ls)
  then have d: "distinct ls" and n: "l \<notin> set ls" by simp_all
  have "length (filter (\<lambda>s. f s = l) xs) + length (filter (\<lambda>s. f s \<in> set ls) xs)
      = length (filter (\<lambda>s. f s = l \<or> f s \<in> set ls) xs)"
    by (rule count_split) (use n in auto)
  with Cons.IH [OF d] show ?case by simp
qed

lemma length_concat_groups: "length (concat (groups label sequences)) = length sequences"
proof -
  have "length (concat (groups label sequences))
      = length (filter (\<lambda>s. label s \<in> set (remdups (map label sequences))) sequences)"
    unfolding groups_def by (rule length_concat_groups_aux) simp
  also have "\<dots> = length sequences" by simp
  finally show ?thesis .
qed

lemma cluster_preserves:
  assumes inv: "one_representative db" and d: "distinct (map seq_id sequences)"
    and c: "cluster cfg now db sequences = Inr db'"
  shows "one_representative db'
    \<and> length (cluster_entries db') = length (cluster_entries db) + length sequences"
proof -
  from c obtain label where ne: "sequences \<noteq> []" and sim: "similarity cfg sequences = Inr label"
    by (auto simp: cluster_def split: if_splits sum.splits)
  let ?base = "next_id (map cluster_id (clusters db))"
  let ?made = "make_clusters cfg now ?base (groups label sequences)"
  let ?new = "number (next_id (map entry_id (cluster_entries db))) (concat (map snd ?made))"
  from c ne sim have db': "db' = db\<lparr>clusters := clusters db @ map fst ?made,
      cluster_entries := cluster_entries db @ ?new\<rparr>"
    by (simp add: cluster_def Let_def)
  have made: "\<And>c es. (c, es) \<in> set ?made \<Longrightarrow>
      ?base \<le> cluster_id c \<and> (\<forall>e \<in> set es. entry_cluster_id e = Some (cluster_id c))
      \<and> length (filter (\<lambda>e. is_representative e = Some True) es) = 1"
  proof -
    fix c es assume m: "(c, es) \<in> set ?made"
    from make_clusters_mem [OF m] obtain g where b: "?base \<le> cluster_id c"
      and g: "g \<in> set (groups label sequences)" and es: "es = make_entries cfg now (cluster_id c) g"
      by blast
    from groups_mem [OF g d] have "g \<noteq> []" "distinct (map seq_id g)" by simp_all
    then have "length (filter (\<lambda>e. is_representative e = Some True) es) = 1"
      unfolding es by (rule make_entries_one_representative)
    moreover have "\<forall>e \<in> set es. entry_cluster_id e = Some (cluster_id c)"
      unfolding es by (auto dest: make_entries_cluster)
    ultimately show "?base \<le> cluster_id c \<and> (\<forall>e \<in> set es. entry_cluster_id e = Some (cluster_id c))
      \<and> length (filter (\<lambda>e. is_representative e = Some True) es) = 1"
      using b by simp
  qed
  have new_entries: "\<And>e. e \<in> set ?new \<Longrightarrow>
      \<exists>c \<in> set (map fst ?made). entry_cluster_id e = Some (cluster_id c)"
  proof -
    fix e assume "e \<in> set ?new"
    from number_mem [OF this] obtain e0 i where e0: "e0 \<in> set (concat (map snd ?made))"
      and e: "e = e0\<lparr>entry_id := i\<rparr>" by blast
    from e0 obtain c es where "(c, es) \<in> set ?made" "e0 \<in> set es" by auto
    with made [of c es] e show "\<exists>c \<in> set (map fst ?made). entry_cluster_id e = Some (cluster_id c)"
      by force
  qed
  have old_ids: "\<And>c. c \<in> set (clusters db) \<Longrightarrow> cluster_id c < ?base"
    by (rule next_id_above) simp
  have new_ids: "\<And>c. c \<in> set (map fst ?made) \<Longrightarrow> ?base \<le> cluster_id c"
    using made by auto
  have fk: "\<forall>e \<in> set (cluster_entries db').
      \<exists>c \<in> set (clusters db'). entry_cluster_id e = Some (cluster_id c)"
  proof
    fix e assume "e \<in> set (cluster_entries db')"
    then have "e \<in> set (cluster_entries db) \<or> e \<in> set ?new" by (simp add: db')
    then show "\<exists>c \<in> set (clusters db'). entry_cluster_id e = Some (cluster_id c)"
    proof
      assume "e \<in> set (cluster_entries db)"
      with inv obtain c where "c \<in> set (clusters db)" "entry_cluster_id e = Some (cluster_id c)"
        by (auto simp: one_representative_def)
      then show ?thesis by (auto simp: db')
    next
      assume "e \<in> set ?new"
      from new_entries [OF this] show ?thesis by (auto simp: db')
    qed
  qed
  have reps: "\<forall>c \<in> set (clusters db'). length (representatives db' c) = 1"
  proof
    fix c assume "c \<in> set (clusters db')"
    then have "c \<in> set (clusters db) \<or> c \<in> set (map fst ?made)" by (simp add: db')
    then show "length (representatives db' c) = 1"
    proof
      assume old: "c \<in> set (clusters db)"
      have "\<forall>e \<in> set ?new. entry_cluster_id e \<noteq> Some (cluster_id c)"
      proof
        fix e assume "e \<in> set ?new"
        from new_entries [OF this] obtain c' where "c' \<in> set (map fst ?made)"
          "entry_cluster_id e = Some (cluster_id c')" by blast
        with new_ids [of c'] old_ids [OF old] show "entry_cluster_id e \<noteq> Some (cluster_id c)"
          by simp
      qed
      then have "filter (\<lambda>e. entry_cluster_id e = Some (cluster_id c) \<and> is_representative e = Some True)
          ?new = []"
        by (simp add: filter_empty_conv)
      then have "representatives db' c = representatives db c"
        by (simp add: representatives_def db')
      with inv old show ?thesis by (simp add: one_representative_def)
    next
      assume new: "c \<in> set (map fst ?made)"
      then obtain es where m: "(c, es) \<in> set ?made" by auto
      have "\<forall>e \<in> set (cluster_entries db). entry_cluster_id e \<noteq> Some (cluster_id c)"
      proof
        fix e assume "e \<in> set (cluster_entries db)"
        with inv obtain c' where "c' \<in> set (clusters db)" "entry_cluster_id e = Some (cluster_id c')"
          by (auto simp: one_representative_def)
        with new_ids [OF new] old_ids [of c'] show "entry_cluster_id e \<noteq> Some (cluster_id c)"
          by simp
      qed
      then have old_none: "filter (\<lambda>e. entry_cluster_id e = Some (cluster_id c)
          \<and> is_representative e = Some True) (cluster_entries db) = []"
        by (simp add: filter_empty_conv)
      have "length (filter (\<lambda>e. entry_cluster_id e = Some (cluster_id c)
          \<and> is_representative e = Some True) ?new)
        = length (filter (\<lambda>e. entry_cluster_id e = Some (cluster_id c)
          \<and> is_representative e = Some True) (concat (map snd ?made)))"
        by (rule number_filter) simp
      also have "filter (\<lambda>e. entry_cluster_id e = Some (cluster_id c)
          \<and> is_representative e = Some True) (concat (map snd ?made))
        = filter (\<lambda>e. is_representative e = Some True) es"
      proof (rule filter_own_entries [OF make_clusters_distinct _ m])
        show "\<forall>p \<in> set ?made. \<forall>e \<in> set (snd p). entry_cluster_id e = Some (cluster_id (fst p))"
          using made by (metis prod.collapse)
      qed
      also have "length (filter (\<lambda>e. is_representative e = Some True) es) = 1"
        using made [OF m] by simp
      finally show ?thesis using old_none by (simp add: representatives_def db')
    qed
  qed
  have "length (cluster_entries db') = length (cluster_entries db) + length sequences"
    by (simp add: db' length_make_clusters_entries length_concat_groups)
  with fk reps show ?thesis by (simp add: one_representative_def)
qed

lemmas cluster_eval =
  cluster_def groups_def make_entries_def better_def demo_method_def demo_sequences_def
  empty_db_def next_id_def

text \<open>
  C7: a database without clusters has one representative per cluster, and every clustering
  run over sequences with distinct identifiers keeps it so: afterwards every cluster has
  exactly one entry with \<open>is_representative\<close> true among its entries, and the run has added
  one entry per sequence. The representative is a member that no other member beats in
  score, or in identifier at equal score. A run over zero sequences fails with
  \<open>InputError\<close>.
\<close>

theorem cluster_one_representative:
  "(clusters db = [] \<and> cluster_entries db = [] \<longrightarrow> one_representative db)
   \<and> cluster cfg now db [] = Inl InputError
   \<and> (\<forall>y \<in> set (s # ss). \<not> better cfg y (pick_representative cfg s ss))
   \<and> pick_representative cfg s ss \<in> set (s # ss)
   \<and> (one_representative db \<and> distinct (map seq_id sequences)
        \<and> cluster cfg now db sequences = Inr db' \<longrightarrow>
        one_representative db'
        \<and> length (cluster_entries db') = length (cluster_entries db) + length sequences)"
proof (intro conjI impI)
  assume "clusters db = [] \<and> cluster_entries db = []"
  then show "one_representative db" by (simp add: one_representative_def)
next
  show "cluster cfg now db [] = Inl InputError" by (simp add: cluster_def)
next
  have "\<forall>y \<in> set [] \<union> set (s # ss). \<not> better cfg y (pick_representative cfg s ss)"
    by (rule pick_representative_best) (simp_all add: better_def)
  then show "\<forall>y \<in> set (s # ss). \<not> better cfg y (pick_representative cfg s ss)" by simp
next
  show "pick_representative cfg s ss \<in> set (s # ss)" by (rule pick_representative_mem)
next
  assume h: "one_representative db \<and> distinct (map seq_id sequences)
        \<and> cluster cfg now db sequences = Inr db'"
  then have a: "one_representative db" and b: "distinct (map seq_id sequences)"
    and c: "cluster cfg now db sequences = Inr db'"
    by simp_all
  from a b c have "one_representative db'
      \<and> length (cluster_entries db') = length (cluster_entries db) + length sequences"
    by (rule cluster_preserves)
  then show "one_representative db'"
    and "length (cluster_entries db') = length (cluster_entries db) + length sequences"
    by simp_all
qed

theorem cluster_one_representative_witness:
  "one_representative empty_db
   \<and> distinct (map seq_id demo_sequences)
   \<and> (case cluster demo_method 0 empty_db demo_sequences of
         Inl e \<Rightarrow> False
       | Inr db' \<Rightarrow>
           one_representative db'
           \<and> map cluster_id (clusters db') = [1]
           \<and> map (\<lambda>e. (entry_id e, entry_cluster_id e, entry_sequence_id e, is_representative e))
                (cluster_entries db')
             = [(1, Some 1, 1, Some False), (2, Some 1, 2, Some False), (3, Some 1, 3, Some True),
                (4, Some 1, 4, Some False), (5, Some 1, 5, Some False)])"
proof -
  define made where "made = (case cluster demo_method 0 empty_db demo_sequences of
      Inl e \<Rightarrow> empty_db | Inr d \<Rightarrow> d)"
  have c: "cluster demo_method 0 empty_db demo_sequences = Inr made"
    by (simp add: made_def cluster_eval)
  have 1: "one_representative empty_db"
    by (simp add: one_representative_def empty_db_def)
  have 2: "distinct (map seq_id demo_sequences)"
    by (simp add: demo_sequences_def)
  note imp = cluster_one_representative [THEN conjunct2, THEN conjunct2, THEN conjunct2,
      THEN conjunct2, THEN mp, OF conjI [OF 1 conjI [OF 2 c]], THEN conjunct1]
  have 3: "map cluster_id (clusters made) = [1]"
    by (simp add: made_def cluster_eval)
  have 4: "map (\<lambda>e. (entry_id e, entry_cluster_id e, entry_sequence_id e, is_representative e))
                (cluster_entries made)
             = [(1, Some 1, 1, Some False), (2, Some 1, 2, Some False), (3, Some 1, 3, Some True),
                (4, Some 1, 4, Some False), (5, Some 1, 5, Some False)]"
    by (simp add: made_def cluster_eval)
  from imp 1 2 3 4 show ?thesis by (simp add: c)
qed

section \<open>Properties of the pipeline entry point\<close>

lemma run_statements_returns:
  "run_statements run ss w = (started, Inr w') \<Longrightarrow> started = ss"
  by (induction ss arbitrary: w started) (auto split: sum.splits prod.splits)

lemma run_statements_raises:
  "run_statements run ss w = (started, Inl e) \<Longrightarrow>
   \<exists>k w'. k < length ss \<and> started = take (Suc k) ss
          \<and> run_statements run (take k ss) w = (take k ss, Inr w')
          \<and> run (ss ! k) w' = Inl e"
proof (induction ss arbitrary: w started)
  case Nil
  then show ?case by simp
next
  case (Cons s ss)
  show ?case
  proof (cases "run s w")
    case (Inl e')
    with Cons.prems have "started = [s]" "e' = e" by simp_all
    with Inl show ?thesis by (intro exI [of _ 0] exI [of _ w]) simp
  next
    case (Inr w1)
    with Cons.prems obtain st where st: "run_statements run ss w1 = (st, Inl e)" "started = s # st"
      by (auto split: prod.splits)
    from Cons.IH [OF st(1)] obtain k w' where k: "k < length ss" "st = take (Suc k) ss"
      "run_statements run (take k ss) w1 = (take k ss, Inr w')" "run (ss ! k) w' = Inl e"
      by blast
    with st Inr show ?thesis
      by (intro exI [of _ "Suc k"] exI [of _ w']) simp
  qed
qed

lemma run_statements_surfaces:
  "k < length ss \<Longrightarrow> run_statements run (take k ss) w = (take k ss, Inr w')
   \<Longrightarrow> run (ss ! k) w' = Inl x
   \<Longrightarrow> run_statements run ss w = (take (Suc k) ss, Inl x)"
proof (induction ss arbitrary: k w)
  case Nil
  then show ?case by simp
next
  case (Cons s ss)
  show ?case
  proof (cases k)
    case 0
    with Cons.prems show ?thesis by simp
  next
    case (Suc j)
    with Cons.prems obtain w1 where w1: "run s w = Inr w1"
      and r: "run_statements run (take j ss) w1 = (take j ss, Inr w')"
      by (auto split: sum.splits prod.splits)
    from Cons.prems Suc have "j < length ss" "run (ss ! j) w' = Inl x" by simp_all
    from Cons.IH [OF this(1) r this(2)] w1 Suc show ?thesis by simp
  qed
qed

lemma exit_status_0:
  "exit_status r = 0 \<longleftrightarrow>
     (\<exists>w'. r = Inr w') \<or> (\<exists>c. r = Inl (SystemExit c) \<and> system_exit_status c = 0)"
  by (auto simp: exit_status_def split: sum.splits py_raise.splits)

text \<open>
  C8, as amended: the statements of \<open>main\<close> follow the declared stage order and a statement
  starts only when every statement before it has returned. A statement that raises (or the
  configuration reader, if it raises) aborts the run: nothing after it is started and what
  it raised leaves \<open>main\<close>. When \<open>main\<close> returns, all eleven statements ran and the exit
  status is 0; when an exception or an interrupt left \<open>main\<close> the exit status is not 0;
  when \<open>SystemExit\<close> left \<open>main\<close> the exit status is the one of its code, which is 0 for
  no code and for an integer code that is a multiple of 256. So the exit status is 0 exactly
  when every statement returned or a \<open>SystemExit\<close> with such a code ended the run.
\<close>

theorem main_runs_stages_in_order:
  "remdups_adj (map stage_of main_statements) = declared_order
   \<and> (\<forall>x. read_yaml_config env config_path = Inl x \<longrightarrow> main env config_path w = ([], Inl x))
   \<and> (\<forall>conf k w' x. read_yaml_config env config_path = Inr conf
         \<and> k < length main_statements
         \<and> run_statements (\<lambda>s. run_stage env s conf) (take k main_statements) w
             = (take k main_statements, Inr w')
         \<and> run_stage env (main_statements ! k) conf w' = Inl x \<longrightarrow>
         main env config_path w = (take (Suc k) main_statements, Inl x))
   \<and> (\<forall>started w'. main env config_path w = (started, Inr w') \<longrightarrow>
         started = main_statements \<and> exit_status (snd (main env config_path w)) = 0)
   \<and> (\<forall>started x. main env config_path w = (started, Inl x) \<longrightarrow>
         exit_status (snd (main env config_path w))
           = (case x of Raise e \<Rightarrow> 1 | SystemExit c \<Rightarrow> system_exit_status c
              | KeyboardInterrupt \<Rightarrow> 130)
         \<and> (read_yaml_config env config_path = Inl x \<and> started = []
            \<or> (\<exists>conf k w'. read_yaml_config env config_path = Inr conf
                  \<and> k < length main_statements
                  \<and> started = take (Suc k) main_statements
                  \<and> run_statements (\<lambda>s. run_stage env s conf) (take k main_statements) w
                      = (take k main_statements, Inr w')
                  \<and> run_stage env (main_statements ! k) conf w' = Inl x)))
   \<and> (exit_status (snd (main env config_path w)) = 0 \<longleftrightarrow>
        (\<exists>w'. main env config_path w = (main_statements, Inr w'))
        \<or> (\<exists>started c. main env config_path w = (started, Inl (SystemExit c))
              \<and> (c = NoCode
                 \<or> (\<exists>n. c = IntCode n \<and> - (2 ^ 63) \<le> n \<and> n < 2 ^ 63 \<and> n mod 256 = 0))))"
proof (intro conjI allI impI)
  show "remdups_adj (map stage_of main_statements) = declared_order"
    by (simp add: main_statements_def declared_order_def)
next
  fix x assume "read_yaml_config env config_path = Inl x"
  then show "main env config_path w = ([], Inl x)" by (simp add: main_def)
next
  fix conf k w' x
  assume h: "read_yaml_config env config_path = Inr conf
         \<and> k < length main_statements
         \<and> run_statements (\<lambda>s. run_stage env s conf) (take k main_statements) w
             = (take k main_statements, Inr w')
         \<and> run_stage env (main_statements ! k) conf w' = Inl x"
  then have k: "k < length main_statements"
    and r: "run_statements (\<lambda>s. run_stage env s conf) (take k main_statements) w
             = (take k main_statements, Inr w')"
    and x: "run_stage env (main_statements ! k) conf w' = Inl x"
    by simp_all
  from k r x have "run_statements (\<lambda>s. run_stage env s conf) main_statements w
      = (take (Suc k) main_statements, Inl x)"
    by (rule run_statements_surfaces)
  with h show "main env config_path w = (take (Suc k) main_statements, Inl x)"
    by (simp add: main_def)
next
  fix started w' assume "main env config_path w = (started, Inr w')"
  then show "started = main_statements"
    by (auto simp: main_def split: sum.splits dest: run_statements_returns)
next
  fix started w' assume "main env config_path w = (started, Inr w')"
  then show "exit_status (snd (main env config_path w)) = 0"
    by (simp add: exit_status_def)
next
  fix started x assume "main env config_path w = (started, Inl x)"
  then show "exit_status (snd (main env config_path w))
           = (case x of Raise e \<Rightarrow> 1 | SystemExit c \<Rightarrow> system_exit_status c
              | KeyboardInterrupt \<Rightarrow> 130)"
    by (simp add: exit_status_def split: py_raise.splits)
next
  fix started x assume m: "main env config_path w = (started, Inl x)"
  show "read_yaml_config env config_path = Inl x \<and> started = []
        \<or> (\<exists>conf k w'. read_yaml_config env config_path = Inr conf
              \<and> k < length main_statements
              \<and> started = take (Suc k) main_statements
              \<and> run_statements (\<lambda>s. run_stage env s conf) (take k main_statements) w
                  = (take k main_statements, Inr w')
              \<and> run_stage env (main_statements ! k) conf w' = Inl x)"
  proof (cases "read_yaml_config env config_path")
    case (Inl e')
    with m show ?thesis by (simp add: main_def)
  next
    case (Inr conf)
    with m have "run_statements (\<lambda>s. run_stage env s conf) main_statements w = (started, Inl x)"
      by (simp add: main_def)
    from run_statements_raises [OF this] Inr show ?thesis by blast
  qed
next
  obtain started r where m: "main env config_path w = (started, r)" by (cases "main env config_path w")
  have ret: "\<And>w'. r = Inr w' \<Longrightarrow> started = main_statements"
    using m by (auto simp: main_def split: sum.splits dest: run_statements_returns)
  have code: "\<And>c. system_exit_status c = 0 \<longleftrightarrow>
      c = NoCode \<or> (\<exists>n. c = IntCode n \<and> - (2 ^ 63) \<le> n \<and> n < 2 ^ 63 \<and> n mod 256 = 0)"
    by (auto simp: system_exit_status_def split: exit_code.splits)
  show "exit_status (snd (main env config_path w)) = 0 \<longleftrightarrow>
        (\<exists>w'. main env config_path w = (main_statements, Inr w'))
        \<or> (\<exists>started c. main env config_path w = (started, Inl (SystemExit c))
              \<and> (c = NoCode
                 \<or> (\<exists>n. c = IntCode n \<and> - (2 ^ 63) \<le> n \<and> n < 2 ^ 63 \<and> n mod 256 = 0)))"
    using ret by (auto simp: m exit_status_0 code)
qed

theorem main_runs_stages_in_order_witness:
  "main (demo_pipeline_env (Some (SequenceClustering_start, Raise (Exception ''stage failed''))))
      (Some ''config/config.yaml'') []
     = ([AccessionManager_fetch_accessions_from_api,
         AccessionManager_load_accessions_from_csv,
         UniProtExtractor_start, PDBExtractor_start,
         SequenceEmbeddingManager_start, Structure3DiManager_start,
         SequenceClustering_start],
        Inl (Raise (Exception ''stage failed'')))
   \<and> exit_status (snd (main
        (demo_pipeline_env (Some (SequenceClustering_start, Raise (Exception ''stage failed''))))
        (Some ''config/config.yaml'') [])) = 1
   \<and> main (demo_pipeline_env None) (Some ''config/config.yaml'') []
     = (main_statements, Inr main_statements)
   \<and> exit_status (snd (main (demo_pipeline_env None) (Some ''config/config.yaml'') [])) = 0
   \<and> main (demo_pipeline_env None) None [] = ([], Inl (Raise (Exception ''no path'')))"
proof -
  let ?env = "demo_pipeline_env (Some (SequenceClustering_start, Raise (Exception ''stage failed'')))"
  have c: "read_yaml_config ?env (Some ''config/config.yaml'') = Inr ''config/config.yaml''
      \<and> 6 < length main_statements
      \<and> run_statements (\<lambda>s. run_stage ?env s ''config/config.yaml'') (take 6 main_statements) []
          = (take 6 main_statements, Inr (take 6 main_statements))
      \<and> run_stage ?env (main_statements ! 6) ''config/config.yaml'' (take 6 main_statements)
          = Inl (Raise (Exception ''stage failed''))"
    by (simp add: demo_pipeline_env_def main_statements_def)
  note surfaced = main_runs_stages_in_order [THEN conjunct2, THEN conjunct2, THEN conjunct1,
      THEN spec, THEN spec, THEN spec, THEN spec, THEN mp, OF c]
  have 1: "main ?env (Some ''config/config.yaml'') []
     = ([AccessionManager_fetch_accessions_from_api,
         AccessionManager_load_accessions_from_csv,
         UniProtExtractor_start, PDBExtractor_start,
         SequenceEmbeddingManager_start, Structure3DiManager_start,
         SequenceClustering_start],
        Inl (Raise (Exception ''stage failed'')))"
    using surfaced by (simp add: main_statements_def)
  have 2: "main (demo_pipeline_env None) (Some ''config/config.yaml'') []
     = (main_statements, Inr main_statements)"
    by (simp add: main_def demo_pipeline_env_def main_statements_def)
  have 3: "read_yaml_config (demo_pipeline_env None) None = Inl (Raise (Exception ''no path''))"
    by (simp add: demo_pipeline_env_def)
  note no_config = main_runs_stages_in_order [THEN conjunct2, THEN conjunct1, THEN spec, THEN mp,
      OF 3, of "[]"]
  have raised: "exit_status (snd (main ?env (Some ''config/config.yaml'') [])) = 1"
    using main_runs_stages_in_order [THEN conjunct2, THEN conjunct2, THEN conjunct2,
      THEN conjunct2, THEN conjunct1, THEN spec, THEN spec, THEN mp, OF 1]
    by simp
  note returned = main_runs_stages_in_order [THEN conjunct2, THEN conjunct2, THEN conjunct2,
      THEN conjunct1, THEN spec, THEN spec, THEN mp, OF 2, THEN conjunct2]
  from raised returned 1 2 no_config show ?thesis by (intro conjI)
qed

text \<open>
  C8 as stated fails: a stage that ends with \<open>sys.exit(0)\<close> stops the run after seven of the
  eleven statements, and the script exits with status 0 although the pipeline did not
  succeed in full.
\<close>

theorem main_exits_0_on_system_exit:
  "main (demo_pipeline_env (Some (SequenceClustering_start, SystemExit (IntCode 0))))
      (Some ''config/config.yaml'') []
     = ([AccessionManager_fetch_accessions_from_api,
         AccessionManager_load_accessions_from_csv,
         UniProtExtractor_start, PDBExtractor_start,
         SequenceEmbeddingManager_start, Structure3DiManager_start,
         SequenceClustering_start],
        Inl (SystemExit (IntCode 0)))
   \<and> exit_status (snd (main
        (demo_pipeline_env (Some (SequenceClustering_start, SystemExit (IntCode 0))))
        (Some ''config/config.yaml'') [])) = 0
   \<and> length main_statements = 11"
  by (simp add: main_def demo_pipeline_env_def main_statements_def exit_status_def
      system_exit_status_def)

section \<open>Properties of \<open>embedding_task\<close>\<close>








section \<open>Properties of the example FASTA entry point\<close>

lemma slice_upto_neg:
  "0 < k \<Longrightarrow> slice_upto (- int k) xs = take (length xs - k) xs"
  by (auto simp: slice_upto_def Let_def max_def nat_diff_distrib')

text \<open>
  C10: \<open>download_fastas\<close> receives the filtered id list without its last 500 elements,
  \<open>merge_fastas\<close> receives the whole list; when at most 500 references pass the filter the
  download list is empty while the merge list still holds every id.
\<close>

theorem example_fasta_main_drops_last_500:
  "download_fastas_arg (example_fasta_main c refs)
     = take (length (filtered_pdb_ids c refs) - 500) (filtered_pdb_ids c refs)
   \<and> download_fastas_arg (example_fasta_main c refs) @
       drop (length (filtered_pdb_ids c refs) - 500) (filtered_pdb_ids c refs)
     = filtered_pdb_ids c refs
   \<and> length (download_fastas_arg (example_fasta_main c refs))
     = length (filtered_pdb_ids c refs) - 500
   \<and> merge_fastas_arg (example_fasta_main c refs) = filtered_pdb_ids c refs
   \<and> (length (filtered_pdb_ids c refs) \<le> 500 \<longrightarrow>
        download_fastas_arg (example_fasta_main c refs) = []
        \<and> merge_fastas_arg (example_fasta_main c refs) = filtered_pdb_ids c refs)"
proof -
  have "slice_upto (- 500) (filtered_pdb_ids c refs)
          = take (length (filtered_pdb_ids c refs) - 500) (filtered_pdb_ids c refs)"
    using slice_upto_neg [of 500 "filtered_pdb_ids c refs"] by simp
  then show ?thesis
    by (simp add: example_fasta_main_def Let_def)
qed

theorem example_fasta_main_drops_last_500_witness:
  "length (filtered_pdb_ids None
      [\<lparr>pdb_id = ''1ABC'', resolution = Some 2\<rparr>,
       \<lparr>pdb_id = ''2XYZ'', resolution = Some 3\<rparr>,
       \<lparr>pdb_id = ''3NUL'', resolution = None\<rparr>]) \<le> 500
   \<and> download_fastas_arg (example_fasta_main None
      [\<lparr>pdb_id = ''1ABC'', resolution = Some 2\<rparr>,
       \<lparr>pdb_id = ''2XYZ'', resolution = Some 3\<rparr>,
       \<lparr>pdb_id = ''3NUL'', resolution = None\<rparr>]) = []
   \<and> merge_fastas_arg (example_fasta_main None
      [\<lparr>pdb_id = ''1ABC'', resolution = Some 2\<rparr>,
       \<lparr>pdb_id = ''2XYZ'', resolution = Some 3\<rparr>,
       \<lparr>pdb_id = ''3NUL'', resolution = None\<rparr>]) = [''1ABC'']"
  using example_fasta_main_drops_last_500 [of None
      "[\<lparr>pdb_id = ''1ABC'', resolution = Some 2\<rparr>,
        \<lparr>pdb_id = ''2XYZ'', resolution = Some 3\<rparr>,
        \<lparr>pdb_id = ''3NUL'', resolution = None\<rparr>]"]
  by (simp add: filtered_pdb_ids_def resolution_threshold_def)

end
